theory Spec2Isabelle
  imports Main "HOL-Library.Word" "HOL-Library.Multiset"
begin

section \<open>Embedding of the outbound load balancer\<close>

text \<open>
  Conventions of the embedding.
  \<^item> Go strings are byte sequences: \<open>string\<close>.
  \<^item> A \<open>time.Time\<close> is an \<open>int\<close>: the reading of the clock in nanoseconds. The zero
    value \<open>time.Time{}\<close> is \<open>0\<close>; every reading of \<open>time.Now()\<close> is passed to the
    operation that takes it as the argument \<open>now\<close>. A \<open>time.Duration\<close> is an \<open>int64\<close>: a
    64-bit word, read as a signed number of nanoseconds.
  \<^item> The platform has 64 bits. The sized atomics of the limiter (\<open>atomic.Int32\<close>,
    \<open>atomic.Int64\<close>) are words, with the conversions of the source written out. The
    counters of \<open>IPStatus\<close> and the thresholds compared with them are Go \<open>int\<close>s that the
    code increments from any value: 64-bit words, where \<open>++\<close> wraps and \<open>>=\<close> compares
    signed values. A Go \<open>int\<close> that is a length, a capacity or a number of calls made so far
    is an \<open>int\<close>; the properties about the call counter of the history are about runs of
    fewer than \<open>2 ^ 63\<close> calls.
  \<^item> The heap is not bounded: an allocation that passes the checks of the runtime succeeds.
  \<^item> A method that runs under the mutex of its receiver (\<open>RecordSuccess\<close>,
    \<open>RecordFailure\<close>) is one atomic step. The calls of the limiter are modelled twice: run
    one at a time, and interleaved at their atomic steps. The calls of the history and of
    the selector are run one at a time.
\<close>

type_synonym time = int
type_synonym duration = "64 word"

text \<open>\<open>t.Add(d)\<close> of the standard library moves the reading by the signed value of \<open>d\<close>.\<close>

definition Time_Add :: "time \<Rightarrow> duration \<Rightarrow> time" where
  "Time_Add t d = t + sint d"

subsection \<open>internal/health/status.go\<close>

datatype HealthState = StateHealthy | StateUnhealthy | StateRecovering

record IPStatus =
  IP :: string
  State :: HealthState
  ConsecutiveFailures :: "64 word"
  ConsecutiveSuccesses :: "64 word"
  LastCheck :: time
  LastError :: "string option"

definition NewIPStatus :: "string \<Rightarrow> IPStatus" where
  "NewIPStatus ip =
     \<lparr>IP = ip, State = StateHealthy, ConsecutiveFailures = 0, ConsecutiveSuccesses = 0,
      LastCheck = 0, LastError = None\<rparr>"

definition IPStatus_IsHealthy :: "IPStatus \<Rightarrow> bool" where
  "IPStatus_IsHealthy s = (State s = StateHealthy)"

text \<open>
  \<open>RecordSuccess\<close> returns whether the state changed, and the updated status. The
  threshold is a Go \<open>int\<close>; \<open>s.ConsecutiveSuccesses++\<close> is the addition of the 64-bit word
  and \<open>>=\<close> the signed comparison.
\<close>

definition RecordSuccess :: "time \<Rightarrow> 64 word \<Rightarrow> IPStatus \<Rightarrow> bool \<times> IPStatus" where
  "RecordSuccess now successThreshold s =
     (let s1 = s\<lparr>LastCheck := now, LastError := None, ConsecutiveFailures := 0,
                  ConsecutiveSuccesses := ConsecutiveSuccesses s + 1\<rparr>;
          oldState = State s1;
          s2 = (case State s1 of
                  StateUnhealthy \<Rightarrow> s1\<lparr>State := StateRecovering, ConsecutiveSuccesses := 1\<rparr>
                | StateRecovering \<Rightarrow>
                    (if word_sle successThreshold (ConsecutiveSuccesses s1)
                     then s1\<lparr>State := StateHealthy\<rparr> else s1)
                | StateHealthy \<Rightarrow> s1)
      in (oldState \<noteq> State s2, s2))"

definition RecordFailure :: "time \<Rightarrow> string option \<Rightarrow> 64 word \<Rightarrow> IPStatus \<Rightarrow> bool \<times> IPStatus" where
  "RecordFailure now err failureThreshold s =
     (let s1 = s\<lparr>LastCheck := now, LastError := err, ConsecutiveSuccesses := 0,
                  ConsecutiveFailures := ConsecutiveFailures s + 1\<rparr>;
          oldState = State s1;
          s2 = (case State s1 of
                  StateHealthy \<Rightarrow>
                    (if word_sle failureThreshold (ConsecutiveFailures s1)
                     then s1\<lparr>State := StateUnhealthy\<rparr> else s1)
                | StateRecovering \<Rightarrow> s1\<lparr>State := StateUnhealthy\<rparr>
                | StateUnhealthy \<Rightarrow> s1)
      in (oldState \<noteq> State s2, s2))"


subsection \<open>internal/limiter/limiter.go\<close>

datatype limiter_error = ErrIPLimitReached | ErrTotalLimitReached

text \<open>
  \<open>maxPerIP\<close> and \<open>maxTotal\<close> are \<open>atomic.Int32\<close>, \<open>total\<close> and the per-IP counters
  are \<open>atomic.Int64\<close>. The map holds one counter per key.
\<close>

record Limiter =
  maxPerIP :: "32 word"
  maxTotal :: "32 word"
  total :: "64 word"
  perIP :: "string \<rightharpoonup> 64 word"

text \<open>\<open>New\<close> takes Go \<open>int\<close>s and stores \<open>int32(maxPerIP)\<close>, \<open>int32(maxTotal)\<close>: the low
  32 bits.\<close>

definition New :: "int \<Rightarrow> int \<Rightarrow> string list \<Rightarrow> Limiter" where
  "New maxPerIP' maxTotal' ips =
     \<lparr>maxPerIP = word_of_int maxPerIP', maxTotal = word_of_int maxTotal', total = 0,
      perIP = fold (\<lambda>ip m. m(ip \<mapsto> 0)) ips Map.empty\<rparr>"

definition UpdateLimits :: "int \<Rightarrow> int \<Rightarrow> Limiter \<Rightarrow> Limiter" where
  "UpdateLimits maxPerIP' maxTotal' l =
     l\<lparr>maxPerIP := word_of_int maxPerIP', maxTotal := word_of_int maxTotal'\<rparr>"

text \<open>
  \<open>Acquire\<close> run without interference: each compare-and-swap succeeds at its first
  attempt. The result is the error (\<open>None\<close> for \<open>nil\<close>) and the limiter afterwards.
  \<open>int64(l.maxTotal.Load())\<close> is a sign extension, and \<open>>=\<close> compares signed values.
\<close>

definition Acquire :: "string \<Rightarrow> Limiter \<Rightarrow> limiter_error option \<times> Limiter" where
  "Acquire ip l =
     (let maxTotal' = (scast (maxTotal l) :: 64 word);
          maxPerIP' = (scast (maxPerIP l) :: 64 word);
          current = total l
      in if word_sle maxTotal' current then (Some ErrTotalLimitReached, l)
         else
           let l1 = l\<lparr>total := current + 1\<rparr>;
               l2 = (case perIP l1 ip of
                       None \<Rightarrow> l1\<lparr>perIP := (perIP l1)(ip \<mapsto> 0)\<rparr>
                     | Some c \<Rightarrow> l1);
               ipCount = (case perIP l2 ip of Some c \<Rightarrow> c | None \<Rightarrow> 0)
           in if word_sle maxPerIP' ipCount
              then (Some ErrIPLimitReached, l2\<lparr>total := total l2 - 1\<rparr>)
              else (None, l2\<lparr>perIP := (perIP l2)(ip \<mapsto> ipCount + 1)\<rparr>))"

definition Release :: "string \<Rightarrow> Limiter \<Rightarrow> Limiter" where
  "Release ip l =
     (let l1 = (case perIP l ip of
                  Some c \<Rightarrow> l\<lparr>perIP := (perIP l)(ip \<mapsto> c - 1)\<rparr>
                | None \<Rightarrow> l)
      in l1\<lparr>total := total l1 - 1\<rparr>)"

definition GetIPCount :: "string \<Rightarrow> Limiter \<Rightarrow> 64 word" where
  "GetIPCount ip l = (case perIP l ip of None \<Rightarrow> 0 | Some c \<Rightarrow> c)"

definition GetTotalCount :: "Limiter \<Rightarrow> 64 word" where
  "GetTotalCount l = total l"

definition IsIPAvailable :: "string \<Rightarrow> Limiter \<Rightarrow> bool" where
  "IsIPAvailable ip l =
     (case perIP l ip of
        None \<Rightarrow> True
      | Some c \<Rightarrow> word_sless c (scast (maxPerIP l) :: 64 word))"

definition GetAvailableIPs :: "string list \<Rightarrow> Limiter \<Rightarrow> string list" where
  "GetAvailableIPs ips l = filter (\<lambda>ip. IsIPAvailable ip l) ips"

text \<open>
  Sequences of calls. \<open>holders\<close> is a ghost multiset: the IPs of the successful
  \<open>Acquire\<close> calls that no \<open>Release\<close> has matched yet.
\<close>

datatype limiter_op = OpAcquire string | OpRelease string

fun op_step :: "limiter_op \<Rightarrow> Limiter \<times> string multiset \<Rightarrow> Limiter \<times> string multiset" where
  "op_step (OpAcquire ip) (l, holders) =
     (case Acquire ip l of
        (None, l') \<Rightarrow> (l', add_mset ip holders)
      | (Some e, l') \<Rightarrow> (l', holders))"
| "op_step (OpRelease ip) (l, holders) = (Release ip l, holders - {#ip#})"

definition run_ops :: "limiter_op list \<Rightarrow> Limiter \<times> string multiset \<Rightarrow> Limiter \<times> string multiset" where
  "run_ops ops c = fold op_step ops c"

text \<open>\<open>paired ops c\<close>: every \<open>Release ip\<close> of \<open>ops\<close>, run from \<open>c\<close>, finds a successful
  \<open>Acquire ip\<close> before it that is not yet released.\<close>

fun paired :: "limiter_op list \<Rightarrow> Limiter \<times> string multiset \<Rightarrow> bool" where
  "paired [] c = True"
| "paired (OpAcquire ip # ops) c = paired ops (op_step (OpAcquire ip) c)"
| "paired (OpRelease ip # ops) c = (ip \<in># snd c \<and> paired ops (op_step (OpRelease ip) c))"

text \<open>
  Interleaved calls. A call in progress is at one of the atomic steps of \<open>Acquire\<close> or
  \<open>Release\<close>: an atomic load, a compare-and-swap, an atomic add, or a map access under
  the mutex. \<open>AcqCasTotal ip current\<close> and \<open>AcqCasIP ip ipCount\<close> carry the value the call
  has loaded. A configuration is the limiter, the multiset of the calls in progress and
  the ghost multiset of holders. One \<open>step\<close> starts a call or runs the next atomic step of
  one call in progress; a failed compare-and-swap goes back to the load, as the
  \<open>for\<close> loops do. A \<open>Release ip\<close> starts only for a holder of \<open>ip\<close>.
\<close>

datatype call =
    AcqLoadTotal string
  | AcqCasTotal string "64 word"
  | AcqLookup string
  | AcqCreate string
  | AcqLoadIP string
  | AcqCasIP string "64 word"
  | AcqRollback string
  | RelLookup string
  | RelDecIP string
  | RelDecTotal string

inductive step ::
    "Limiter \<times> call multiset \<times> string multiset \<Rightarrow> Limiter \<times> call multiset \<times> string multiset \<Rightarrow> bool" where
  acquire_call:
    "step (l, calls, holders) (l, add_mset (AcqLoadTotal ip) calls, holders)"
| load_total_full:
    "word_sle (scast (maxTotal l) :: 64 word) (total l) \<Longrightarrow>
     step (l, add_mset (AcqLoadTotal ip) calls, holders) (l, calls, holders)"
| load_total:
    "\<not> word_sle (scast (maxTotal l) :: 64 word) (total l) \<Longrightarrow>
     step (l, add_mset (AcqLoadTotal ip) calls, holders)
          (l, add_mset (AcqCasTotal ip (total l)) calls, holders)"
| cas_total_ok:
    "total l = current \<Longrightarrow>
     step (l, add_mset (AcqCasTotal ip current) calls, holders)
          (l\<lparr>total := current + 1\<rparr>, add_mset (AcqLookup ip) calls, holders)"
| cas_total_retry:
    "total l \<noteq> current \<Longrightarrow>
     step (l, add_mset (AcqCasTotal ip current) calls, holders)
          (l, add_mset (AcqLoadTotal ip) calls, holders)"
| lookup_found:
    "perIP l ip = Some c \<Longrightarrow>
     step (l, add_mset (AcqLookup ip) calls, holders) (l, add_mset (AcqLoadIP ip) calls, holders)"
| lookup_missing:
    "perIP l ip = None \<Longrightarrow>
     step (l, add_mset (AcqLookup ip) calls, holders) (l, add_mset (AcqCreate ip) calls, holders)"
| create:
    "step (l, add_mset (AcqCreate ip) calls, holders)
          (case perIP l ip of None \<Rightarrow> l\<lparr>perIP := (perIP l)(ip \<mapsto> 0)\<rparr> | Some c \<Rightarrow> l,
           add_mset (AcqLoadIP ip) calls, holders)"
| load_ip_full:
    "perIP l ip = Some ipCount \<Longrightarrow> word_sle (scast (maxPerIP l) :: 64 word) ipCount \<Longrightarrow>
     step (l, add_mset (AcqLoadIP ip) calls, holders) (l, add_mset (AcqRollback ip) calls, holders)"
| load_ip:
    "perIP l ip = Some ipCount \<Longrightarrow> \<not> word_sle (scast (maxPerIP l) :: 64 word) ipCount \<Longrightarrow>
     step (l, add_mset (AcqLoadIP ip) calls, holders)
          (l, add_mset (AcqCasIP ip ipCount) calls, holders)"
| rollback:
    "step (l, add_mset (AcqRollback ip) calls, holders) (l\<lparr>total := total l - 1\<rparr>, calls, holders)"
| cas_ip_ok:
    "perIP l ip = Some ipCount \<Longrightarrow>
     step (l, add_mset (AcqCasIP ip ipCount) calls, holders)
          (l\<lparr>perIP := (perIP l)(ip \<mapsto> ipCount + 1)\<rparr>, calls, add_mset ip holders)"
| cas_ip_retry:
    "perIP l ip \<noteq> Some ipCount \<Longrightarrow>
     step (l, add_mset (AcqCasIP ip ipCount) calls, holders)
          (l, add_mset (AcqLoadIP ip) calls, holders)"
| release_call:
    "step (l, calls, add_mset ip holders) (l, add_mset (RelLookup ip) calls, holders)"
| release_found:
    "perIP l ip = Some c \<Longrightarrow>
     step (l, add_mset (RelLookup ip) calls, holders) (l, add_mset (RelDecIP ip) calls, holders)"
| release_missing:
    "perIP l ip = None \<Longrightarrow>
     step (l, add_mset (RelLookup ip) calls, holders) (l, add_mset (RelDecTotal ip) calls, holders)"
| release_dec_ip:
    "perIP l ip = Some c \<Longrightarrow>
     step (l, add_mset (RelDecIP ip) calls, holders)
          (l\<lparr>perIP := (perIP l)(ip \<mapsto> c - 1)\<rparr>, add_mset (RelDecTotal ip) calls, holders)"
| release_dec_total:
    "step (l, add_mset (RelDecTotal ip) calls, holders) (l\<lparr>total := total l - 1\<rparr>, calls, holders)"

text \<open>
  What a call in progress has added to the counters and not yet taken back: a slot of the
  total (from the successful compare-and-swap of an \<open>Acquire\<close> to its end, and for a
  \<open>Release\<close> until its last decrement), and a slot of an IP (for a \<open>Release\<close> until it
  has decremented the counter of the IP).
\<close>

fun total_slots :: "call \<Rightarrow> nat" where
  "total_slots (AcqLoadTotal ip) = 0"
| "total_slots (AcqCasTotal ip current) = 0"
| "total_slots (AcqLookup ip) = 1"
| "total_slots (AcqCreate ip) = 1"
| "total_slots (AcqLoadIP ip) = 1"
| "total_slots (AcqCasIP ip ipCount) = 1"
| "total_slots (AcqRollback ip) = 1"
| "total_slots (RelLookup ip) = 1"
| "total_slots (RelDecIP ip) = 1"
| "total_slots (RelDecTotal ip) = 1"

fun ip_slots :: "string \<Rightarrow> call \<Rightarrow> nat" where
  "ip_slots k (RelLookup ip) = (if k = ip then 1 else 0)"
| "ip_slots k (RelDecIP ip) = (if k = ip then 1 else 0)"
| "ip_slots k c = 0"

fun loaded_below :: "Limiter \<Rightarrow> call \<Rightarrow> bool" where
  "loaded_below l (AcqCasTotal ip current) = (sint current < sint (maxTotal l))"
| "loaded_below l (AcqCasIP ip ipCount) = (sint ipCount < sint (maxPerIP l))"
| "loaded_below l c = True"

definition slots_total :: "call multiset \<Rightarrow> string multiset \<Rightarrow> int" where
  "slots_total calls holders = int (size holders) + int (sum_mset (image_mset total_slots calls))"

definition slots_ip :: "string \<Rightarrow> call multiset \<Rightarrow> string multiset \<Rightarrow> int" where
  "slots_ip k calls holders = int (count holders k) + int (sum_mset (image_mset (ip_slots k) calls))"

text \<open>
  The invariant of the interleaved runs: each counter is the number of its slots held, by
  holders or by calls in progress; these numbers respect the stored limits; and a value
  a call has loaded for its compare-and-swap was below the limit.
\<close>

definition step_inv :: "Limiter \<times> call multiset \<times> string multiset \<Rightarrow> bool" where
  "step_inv cfg =
     (case cfg of (l, calls, holders) \<Rightarrow>
        sint (total l) = slots_total calls holders \<and>
        (\<forall>k. sint (GetIPCount k l) = slots_ip k calls holders) \<and>
        slots_total calls holders \<le> max 0 (sint (maxTotal l)) \<and>
        (\<forall>k. slots_ip k calls holders \<le> max 0 (sint (maxPerIP l))) \<and>
        (\<forall>c. c \<in># calls \<longrightarrow> loaded_below l c))"

subsection \<open>The history store of the balancer\<close>

text \<open>
  \<open>HostHistory\<close> and \<open>History\<close>. The counters \<open>maxTotalEntries\<close> and \<open>totalEntries\<close> are Go
  \<open>int\<close>s. The map \<open>hosts\<close> holds pointers; a method of a \<open>HostHistory\<close> reached through
  the map updates the value stored under that key. A \<open>range\<close> over the map visits the keys
  in an order Go leaves open: an operation that ranges takes the order of that visit as
  its argument \<open>order\<close>, a list of the keys of the map without repetition.
\<close>

record Entry =
  IP :: string
  Timestamp :: time

record HostHistory =
  entries :: "Entry list"

definition NewHostHistory :: HostHistory where
  "NewHostHistory = \<lparr>entries = []\<rparr>"

definition HostHistory_Add :: "string \<Rightarrow> time \<Rightarrow> HostHistory \<Rightarrow> HostHistory" where
  "HostHistory_Add ip now hh = hh\<lparr>entries := entries hh @ [\<lparr>IP = ip, Timestamp = now\<rparr>]\<rparr>"

text \<open>The loop of \<open>HostHistory.GetFiltered\<close>, on the entries from the most recent one
  backwards: it stops when \<open>result\<close> has \<open>maxSize\<close> elements.\<close>

fun collect_recent :: "time \<Rightarrow> int \<Rightarrow> Entry list \<Rightarrow> Entry list \<Rightarrow> Entry list" where
  "collect_recent cutoff maxSize [] result = result"
| "collect_recent cutoff maxSize (e # older) result =
     (if int (length result) < maxSize
      then collect_recent cutoff maxSize older
             (if Timestamp e > cutoff then result @ [e] else result)
      else result)"

datatype go_panic = PanicMakesliceCap

text \<open>
  \<open>make([]Entry, 0, maxSize)\<close> is \<open>runtime.makeslice\<close> with a length of zero. It panics
  (\<open>makeslice: cap out of range\<close>) when the capacity is negative, and when the bytes asked
  for, the size of an element times the capacity, exceed \<open>maxAlloc\<close>. An \<open>Entry\<close> takes 40
  bytes, 16 for the string and 24 for the \<open>time.Time\<close>, and \<open>maxAlloc\<close> is \<open>2 ^ 48\<close> (heap
  addresses of 48 bits, as on linux/amd64 and linux/arm64).
\<close>

definition Entry_Size :: int where
  "Entry_Size = 40"

definition maxAlloc :: int where
  "maxAlloc = 2 ^ 48"

definition makeslice_panics :: "int \<Rightarrow> int \<Rightarrow> bool" where
  "makeslice_panics elemSize capacity = (capacity < 0 \<or> maxAlloc < elemSize * capacity)"

text \<open>\<open>HostHistory.GetFiltered\<close>; \<open>-window\<close> is the negation of the 64-bit word, which
  leaves the least duration as it is.\<close>

definition HostHistory_GetFiltered ::
    "duration \<Rightarrow> int \<Rightarrow> time \<Rightarrow> HostHistory \<Rightarrow> go_panic + Entry list" where
  "HostHistory_GetFiltered window maxSize now hh =
     (let cutoff = Time_Add now (- window)
      in if makeslice_panics Entry_Size maxSize then Inl PanicMakesliceCap
         else Inr (collect_recent cutoff maxSize (rev (entries hh)) []))"

text \<open>\<open>HostHistory.Cleanup\<close> returns the number of removed entries. Its \<open>make\<close> asks for
  as many elements as \<open>h.entries\<close> holds: a capacity that \<open>makeslice\<close> accepts.\<close>

definition HostHistory_Cleanup :: "duration \<Rightarrow> time \<Rightarrow> HostHistory \<Rightarrow> int \<times> HostHistory" where
  "HostHistory_Cleanup window now hh =
     (let cutoff = Time_Add now (- window);
          newEntries = filter (\<lambda>e. Timestamp e > cutoff) (entries hh);
          removed = int (length (entries hh)) - int (length newEntries)
      in (removed, hh\<lparr>entries := newEntries\<rparr>))"

definition HostHistory_Len :: "HostHistory \<Rightarrow> int" where
  "HostHistory_Len hh = int (length (entries hh))"

record History =
  hosts :: "string \<rightharpoonup> HostHistory"
  maxTotalEntries :: int
  totalEntries :: int

text \<open>\<open>NewHistory ()\<close> is \<open>NewHistory 0\<close>; \<open>NewHistory (WithMaxTotalEntries max)\<close> is
  \<open>NewHistory max\<close>.\<close>

definition NewHistory :: "int \<Rightarrow> History" where
  "NewHistory maxEntries = \<lparr>hosts = Map.empty, maxTotalEntries = maxEntries, totalEntries = 0\<rparr>"

definition GetOrCreate :: "string \<Rightarrow> History \<Rightarrow> HostHistory \<times> History" where
  "GetOrCreate host h =
     (case hosts h host of
        Some hh \<Rightarrow> (hh, h)
      | None \<Rightarrow> (NewHostHistory, h\<lparr>hosts := (hosts h)(host \<mapsto> NewHostHistory)\<rparr>))"

text \<open>The first loop of \<open>evictOldestLocked\<close>, with its three variables.\<close>

fun find_oldest ::
    "(string \<rightharpoonup> HostHistory) \<Rightarrow> string list \<Rightarrow> string \<times> time \<times> bool \<Rightarrow> string \<times> time \<times> bool" where
  "find_oldest hs [] acc = acc"
| "find_oldest hs (host # rest) (oldestHost, oldestTime, first) =
     (case hs host of
        None \<Rightarrow> find_oldest hs rest (oldestHost, oldestTime, first)
      | Some hh \<Rightarrow>
          (case entries hh of
             [] \<Rightarrow> find_oldest hs rest (oldestHost, oldestTime, first)
           | e # later \<Rightarrow>
               if first \<or> Timestamp e < oldestTime
               then find_oldest hs rest (host, Timestamp e, False)
               else find_oldest hs rest (oldestHost, oldestTime, first)))"

definition evictOldestLocked :: "string list \<Rightarrow> History \<Rightarrow> History" where
  "evictOldestLocked order h =
     (case find_oldest (hosts h) order ([], 0, True) of
        (oldestHost, oldestTime, first) \<Rightarrow>
          if oldestHost \<noteq> [] then
            (case hosts h oldestHost of
               None \<Rightarrow> h
             | Some hh \<Rightarrow>
                 let (hh1, h1) =
                       (if entries hh \<noteq> []
                        then (hh\<lparr>entries := tl (entries hh)\<rparr>,
                              h\<lparr>hosts := (hosts h)(oldestHost \<mapsto> hh\<lparr>entries := tl (entries hh)\<rparr>),
                                totalEntries := totalEntries h - 1\<rparr>)
                        else (hh, h))
                 in if entries hh1 = []
                    then h1\<lparr>hosts := (hosts h1)(oldestHost := None)\<rparr>
                    else h1)
          else h)"

text \<open>\<open>History.Record\<close>; \<open>now\<close> is the clock read by \<open>HostHistory.Add\<close>.\<close>

definition History_Record :: "string \<Rightarrow> string \<Rightarrow> time \<Rightarrow> string list \<Rightarrow> History \<Rightarrow> History" where
  "History_Record host ip now order h =
     (let h1 = (if maxTotalEntries h > 0
                then (let h' = (if totalEntries h \<ge> maxTotalEntries h
                                then evictOldestLocked order h else h)
                      in h'\<lparr>totalEntries := totalEntries h' + 1\<rparr>)
                else h);
          (hh, h2) = GetOrCreate host h1
      in h2\<lparr>hosts := (hosts h2)(host \<mapsto> HostHistory_Add ip now hh)\<rparr>)"

definition History_GetFiltered ::
    "string \<Rightarrow> duration \<Rightarrow> int \<Rightarrow> time \<Rightarrow> History \<Rightarrow> go_panic + Entry list" where
  "History_GetFiltered host window maxSize now h =
     (case hosts h host of
        None \<Rightarrow> Inr []
      | Some hh \<Rightarrow> HostHistory_GetFiltered window maxSize now hh)"

text \<open>
  \<open>History.Cleanup\<close>. Each \<open>HostHistory.Cleanup\<close> reads the clock itself: \<open>clock host\<close> is
  the reading taken when \<open>host\<close> is visited. The first loop purges every host and collects
  the hosts left empty, the second deletes them.
\<close>

fun cleanup_hosts ::
    "duration \<Rightarrow> (string \<Rightarrow> time) \<Rightarrow> string list \<Rightarrow>
     (string \<rightharpoonup> HostHistory) \<times> int \<times> string list \<Rightarrow> (string \<rightharpoonup> HostHistory) \<times> int \<times> string list" where
  "cleanup_hosts window clock [] acc = acc"
| "cleanup_hosts window clock (host # rest) (hs, removedEntries, hostsToRemove) =
     (case hs host of
        None \<Rightarrow> cleanup_hosts window clock rest (hs, removedEntries, hostsToRemove)
      | Some hh \<Rightarrow>
          (let (removed, hh') = HostHistory_Cleanup window (clock host) hh
           in cleanup_hosts window clock rest
                (hs(host \<mapsto> hh'), removedEntries + removed,
                 if HostHistory_Len hh' = 0 then hostsToRemove @ [host] else hostsToRemove)))"

definition History_Cleanup ::
    "duration \<Rightarrow> (string \<Rightarrow> time) \<Rightarrow> string list \<Rightarrow> History \<Rightarrow> (int \<times> int) \<times> History" where
  "History_Cleanup window clock order h =
     (case cleanup_hosts window clock order (hosts h, 0, []) of
        (hs, removedEntries, hostsToRemove) \<Rightarrow>
          ((removedEntries, int (length hostsToRemove)),
           h\<lparr>hosts := fold (\<lambda>host m. m(host := None)) hostsToRemove hs\<rparr>))"

text \<open>\<open>History.Stats\<close>: the number of hosts, the number of stored entries and the number
  of entries of each IP.\<close>

definition Stats :: "string list \<Rightarrow> History \<Rightarrow> int \<times> int \<times> (string \<Rightarrow> int)" where
  "Stats order h =
     (let es = concat (map (\<lambda>host. case hosts h host of None \<Rightarrow> [] | Some hh \<Rightarrow> entries hh) order)
      in (int (length order), int (length es), \<lambda>ip. int (length (filter (\<lambda>e. IP e = ip) es))))"

text \<open>
  Sequences of \<open>Record\<close> and \<open>Cleanup\<close> calls. Each call carries the clock readings it
  takes and the order in which its \<open>range\<close> visits the map; \<open>ranges_over_map\<close> says that
  each of these orders lists the keys the map has at that moment, each key once.
  \<open>stored_entries\<close> is the number of entries the map holds.
\<close>

datatype history_op =
    OpRecord string string time "string list"
  | OpCleanup duration "string \<Rightarrow> time" "string list"

fun history_step :: "history_op \<Rightarrow> History \<Rightarrow> History" where
  "history_step (OpRecord host ip now order) h = History_Record host ip now order h"
| "history_step (OpCleanup window clock order) h = snd (History_Cleanup window clock order h)"

fun op_order :: "history_op \<Rightarrow> string list" where
  "op_order (OpRecord host ip now order) = order"
| "op_order (OpCleanup window clock order) = order"

fun ranges_over_map :: "history_op list \<Rightarrow> History \<Rightarrow> bool" where
  "ranges_over_map [] h = True"
| "ranges_over_map (opn # ops) h =
     (distinct (op_order opn) \<and> set (op_order opn) = dom (hosts h) \<and>
      ranges_over_map ops (history_step opn h))"

fun host_named :: "history_op \<Rightarrow> bool" where
  "host_named (OpRecord host ip now order) = (host \<noteq> [])"
| "host_named (OpCleanup window clock order) = True"

definition stored_entries :: "History \<Rightarrow> nat" where
  "stored_entries h =
     (\<Sum>host \<in> dom (hosts h). case hosts h host of None \<Rightarrow> 0 | Some hh \<Rightarrow> length (entries hh))"

text \<open>
  \<open>host_len m host\<close> is the number of entries of one host. \<open>history_inv\<close> is the invariant
  of the runs in which every recorded host has a name: the map is finite, no key is the
  empty string, no host is empty, and the number of stored entries is at most the counter
  \<open>totalEntries\<close> and at most the cap.
\<close>

definition host_len :: "(string \<rightharpoonup> HostHistory) \<Rightarrow> string \<Rightarrow> nat" where
  "host_len m k = (case m k of None \<Rightarrow> 0 | Some hh \<Rightarrow> length (entries hh))"

definition history_inv :: "History \<Rightarrow> bool" where
  "history_inv h =
     (finite (dom (hosts h)) \<and> [] \<notin> dom (hosts h) \<and>
      (\<forall>k hh. hosts h k = Some hh \<longrightarrow> entries hh \<noteq> []) \<and>
      int (stored_entries h) \<le> totalEntries h \<and>
      int (stored_entries h) \<le> maxTotalEntries h \<and> 0 < maxTotalEntries h)"

subsection \<open>The health checker, as the balancer sees it\<close>

text \<open>Of the \<open>HealthChecker\<close> the balancer uses the map of statuses only.\<close>

record HealthChecker =
  statuses :: "string \<rightharpoonup> IPStatus"

definition HealthChecker_IsHealthy :: "string \<Rightarrow> HealthChecker \<Rightarrow> bool" where
  "HealthChecker_IsHealthy ip hc =
     (case statuses hc ip of None \<Rightarrow> True | Some status \<Rightarrow> IPStatus_IsHealthy status)"

definition GetHealthyIPs :: "string list \<Rightarrow> HealthChecker \<Rightarrow> string list" where
  "GetHealthyIPs addrs hc =
     filter (\<lambda>ip. case statuses hc ip of None \<Rightarrow> True | Some status \<Rightarrow> IPStatus_IsHealthy status)
       addrs"

subsection \<open>The LRU balancer\<close>

text \<open>
  \<open>limiter\<close> and \<open>healthChecker\<close> are interface values, \<open>None\<close> when \<open>nil\<close>; they hold the
  limiter and the health checker of this repository.
\<close>

record LRU =
  ips :: "string list"
  historyWindow :: duration
  historySize :: int
  limiter :: "Limiter option"
  healthChecker :: "HealthChecker option"
  history :: History

datatype balancer_error = ErrNoAvailableIPs | GoPanic go_panic

text \<open>\<open>math.MaxInt\<close> of a 64-bit platform.\<close>

definition MaxInt :: int where
  "MaxInt = 2 ^ 63 - 1"

definition getAvailableIPs :: "LRU \<Rightarrow> string list" where
  "getAvailableIPs l =
     (let ips1 = (case healthChecker l of
                    None \<Rightarrow> ips l
                  | Some hc \<Rightarrow>
                      (let healthyIPs = GetHealthyIPs (ips l) hc
                       in if length healthyIPs = 0 then ips l else healthyIPs))
      in case limiter l of
           Some lim \<Rightarrow> GetAvailableIPs ips1 lim
         | None \<Rightarrow> ips1)"

text \<open>
  The two loops of \<open>Select\<close>. The maps of the pooled context are empty when the call
  starts; a key that is absent reads as \<open>0\<close>, or as the zero time.
\<close>

fun count_usage ::
    "Entry list \<Rightarrow> (string \<rightharpoonup> int) \<times> (string \<rightharpoonup> time) \<Rightarrow> (string \<rightharpoonup> int) \<times> (string \<rightharpoonup> time)" where
  "count_usage [] ctx = ctx"
| "count_usage (e # es) (usageCount, lastUsed) =
     count_usage es
       (usageCount(IP e \<mapsto> (case usageCount (IP e) of None \<Rightarrow> 0 | Some n \<Rightarrow> n) + 1),
        (case lastUsed (IP e) of
           None \<Rightarrow> lastUsed(IP e \<mapsto> Timestamp e)
         | Some t \<Rightarrow> if Timestamp e > t then lastUsed(IP e \<mapsto> Timestamp e) else lastUsed))"

definition IsZero :: "time \<Rightarrow> bool" where
  "IsZero t = (t = 0)"

fun pick_ip ::
    "(string \<rightharpoonup> int) \<Rightarrow> (string \<rightharpoonup> time) \<Rightarrow> string list \<Rightarrow> string \<times> int \<times> time \<Rightarrow> string \<times> int \<times> time" where
  "pick_ip usageCount lastUsed [] acc = acc"
| "pick_ip usageCount lastUsed (ip # rest) (selectedIP, minUsage, oldestUse) =
     (let usage = (case usageCount ip of None \<Rightarrow> 0 | Some n \<Rightarrow> n);
          lastUse = (case lastUsed ip of None \<Rightarrow> 0 | Some t \<Rightarrow> t)
      in if usage < minUsage then pick_ip usageCount lastUsed rest (ip, usage, lastUse)
         else if usage = minUsage then
           (if IsZero lastUse \<or> lastUse < oldestUse
            then pick_ip usageCount lastUsed rest (ip, minUsage, lastUse)
            else pick_ip usageCount lastUsed rest (selectedIP, minUsage, oldestUse))
         else pick_ip usageCount lastUsed rest (selectedIP, minUsage, oldestUse))"

definition Select :: "string \<Rightarrow> time \<Rightarrow> LRU \<Rightarrow> balancer_error + string" where
  "Select host now l =
     (let availableIPs = getAvailableIPs l
      in if length availableIPs = 0 then Inl ErrNoAvailableIPs
         else
           (case History_GetFiltered host (historyWindow l) (historySize l) now (history l) of
              Inl p \<Rightarrow> Inl (GoPanic p)
            | Inr es \<Rightarrow>
                (let (usageCount, lastUsed) = count_usage es (Map.empty, Map.empty);
                     (selectedIP, minUsage, oldestUse) =
                        pick_ip usageCount lastUsed availableIPs ([], MaxInt, 0)
                 in Inr selectedIP)))"

definition LRU_Record :: "string \<Rightarrow> string \<Rightarrow> time \<Rightarrow> string list \<Rightarrow> LRU \<Rightarrow> LRU" where
  "LRU_Record host ip now order l = l\<lparr>history := History_Record host ip now order (history l)\<rparr>"

text \<open>
  The candidate set in the words of the specification: all configured IPs, narrowed to
  the healthy ones when a health checker is present and some IP is healthy, then narrowed
  to the IPs the limiter reports available.
\<close>

definition candidate_ips :: "LRU \<Rightarrow> string list" where
  "candidate_ips l =
     filter (\<lambda>ip. case limiter l of None \<Rightarrow> True | Some lim \<Rightarrow> IsIPAvailable ip lim)
       (case healthChecker l of
          None \<Rightarrow> ips l
        | Some hc \<Rightarrow>
            (let healthy = filter (\<lambda>ip. HealthChecker_IsHealthy ip hc) (ips l)
             in if healthy = [] then ips l else healthy))"

subsection \<open>Strings\<close>

text \<open>
  The functions of the Go package \<open>strings\<close> that the proxy calls, on byte strings:
  \<open>HasPrefix\<close>, \<open>Index\<close> and \<open>LastIndex\<close> (\<open>-1\<close> when the substring does not occur), \<open>Cut\<close>
  and \<open>SplitN\<close> with \<open>n = 2\<close> (both cut at the first occurrence of the separator).
\<close>

definition HasPrefix :: "string \<Rightarrow> string \<Rightarrow> bool" where
  "HasPrefix s p = (take (length p) s = p)"

fun Index :: "string \<Rightarrow> string \<Rightarrow> int" where
  "Index [] substr = (if substr = [] then 0 else - 1)"
| "Index (c # cs) substr =
     (if HasPrefix (c # cs) substr then 0
      else (let i = Index cs substr in if i < 0 then - 1 else i + 1))"

fun LastIndex :: "string \<Rightarrow> string \<Rightarrow> int" where
  "LastIndex [] substr = (if substr = [] then 0 else - 1)"
| "LastIndex (c # cs) substr =
     (let i = LastIndex cs substr
      in if i \<ge> 0 then i + 1
         else if HasPrefix (c # cs) substr then 0 else - 1)"

definition Cut :: "string \<Rightarrow> string \<Rightarrow> string \<times> string \<times> bool" where
  "Cut s sep =
     (let i = Index s sep
      in if i \<ge> 0 then (take (nat i) s, drop (nat i + length sep) s, True)
         else (s, [], False))"

definition SplitN2 :: "string \<Rightarrow> string \<Rightarrow> string list" where
  "SplitN2 s sep =
     (let i = Index s sep
      in if i < 0 then [s] else [take (nat i) s, drop (nat i + length sep) s])"

subsection \<open>internal/proxy/handler.go: the client IP\<close>

text \<open>Of the \<open>http.Request\<close>: the header map and the remote address.\<close>

record Request =
  Header :: "string \<rightharpoonup> string list"
  RemoteAddr :: string

text \<open>The slice \<open>s[lo:hi]\<close>, for \<open>0 \<le> lo \<le> hi \<le> len(s)\<close>.\<close>

definition slice :: "string \<Rightarrow> int \<Rightarrow> int \<Rightarrow> string" where
  "slice s lo hi = take (nat hi - nat lo) (drop (nat lo) s)"

definition getClientIP :: "Request \<Rightarrow> string" where
  "getClientIP r =
     (if HasPrefix (RemoteAddr r) ''[''
      then (let idx = LastIndex (RemoteAddr r) '']:''
            in if idx \<noteq> - 1 then slice (RemoteAddr r) 1 idx else RemoteAddr r)
      else (case Cut (RemoteAddr r) '':'' of
              (host, rest, found) \<Rightarrow> if found then host else RemoteAddr r))"

text \<open>The host portion in the words of the specification, for an address without a
  leading bracket: what stands before the last colon.\<close>

definition host_before_last_colon :: "string \<Rightarrow> string" where
  "host_before_last_colon addr = rev (drop 1 (dropWhile (\<lambda>c. c \<noteq> CHR '':'') (rev addr)))"

subsection \<open>Proxy authentication\<close>

record Config =
  Auth :: string

definition GetAuthCredentials :: "Config \<Rightarrow> string \<times> string \<times> bool" where
  "GetAuthCredentials c =
     (if Auth c = [] then ([], [], False)
      else (let parts = SplitN2 (Auth c) '':''
            in if length parts \<noteq> 2 then ([], [], False)
               else (parts ! 0, parts ! 1, True)))"

text \<open>
  The response writer: the header map, whether the status line has been written, the
  status code and the body. \<open>Header_Get\<close> and \<open>Header_Set\<close> are called with canonical keys
  only. \<open>WriteHeader\<close> sets the status once; \<open>http_Error\<close> is \<open>http.Error\<close> of the standard
  library: two headers, the status, and the message with a line feed as the body.
\<close>

record ResponseWriter =
  HeaderMap :: "string \<rightharpoonup> string list"
  wroteHeader :: bool
  Code :: nat
  Body :: string

definition Header_Get :: "(string \<rightharpoonup> string list) \<Rightarrow> string \<Rightarrow> string" where
  "Header_Get h key = (case h key of None \<Rightarrow> [] | Some [] \<Rightarrow> [] | Some (v # vs) \<Rightarrow> v)"

definition Header_Set :: "string \<Rightarrow> string \<Rightarrow> ResponseWriter \<Rightarrow> ResponseWriter" where
  "Header_Set key v w = w\<lparr>HeaderMap := (HeaderMap w)(key \<mapsto> [v])\<rparr>"

definition WriteHeader :: "nat \<Rightarrow> ResponseWriter \<Rightarrow> ResponseWriter" where
  "WriteHeader code w = (if wroteHeader w then w else w\<lparr>wroteHeader := True, Code := code\<rparr>)"

definition Write :: "string \<Rightarrow> ResponseWriter \<Rightarrow> ResponseWriter" where
  "Write bytes w = (let w1 = WriteHeader 200 w in w1\<lparr>Body := Body w1 @ bytes\<rparr>)"

definition http_Error :: "string \<Rightarrow> nat \<Rightarrow> ResponseWriter \<Rightarrow> ResponseWriter" where
  "http_Error msg code w =
     Write (msg @ [CHR 0x0A])
       (WriteHeader code
         (Header_Set ''X-Content-Type-Options'' ''nosniff''
           (Header_Set ''Content-Type'' ''text/plain; charset=utf-8'' w)))"

definition StatusProxyAuthRequired :: nat where
  "StatusProxyAuthRequired = 407"

definition sendProxyAuthRequired :: "ResponseWriter \<Rightarrow> ResponseWriter" where
  "sendProxyAuthRequired w =
     http_Error ''Proxy Authentication Required'' StatusProxyAuthRequired
       (Header_Set ''Proxy-Authenticate'' (''Basic realm='' @ [CHR 0x22] @ ''Proxy'' @ [CHR 0x22]) w)"

text \<open>\<open>subtle.ConstantTimeCompare\<close>: \<open>1\<close> when the two byte slices are equal, \<open>0\<close> otherwise.\<close>

definition ConstantTimeCompare :: "string \<Rightarrow> string \<Rightarrow> int" where
  "ConstantTimeCompare x y = (if x = y then 1 else 0)"

text \<open>
  \<open>authenticate\<close>. \<open>DecodeString\<close> stands for \<open>base64.StdEncoding.DecodeString\<close> (\<open>None\<close>
  for an error). The state is the response writer and the counter \<open>metrics.AuthFailures\<close>.
  \<open>reject\<close> is what every failing branch does: it sends the 407 response, counts the
  failure and returns false.
\<close>

definition reject :: "ResponseWriter \<times> nat \<Rightarrow> bool \<times> ResponseWriter \<times> nat" where
  "reject st = (case st of (w, authFailures) \<Rightarrow> (False, sendProxyAuthRequired w, authFailures + 1))"

definition authenticate ::
    "(string \<Rightarrow> string option) \<Rightarrow> Config \<Rightarrow> Request \<Rightarrow> ResponseWriter \<times> nat \<Rightarrow>
     bool \<times> ResponseWriter \<times> nat" where
  "authenticate DecodeString cfg r st =
     (if Auth cfg = [] then (True, st)
      else
        (case GetAuthCredentials cfg of
           (username, password, ok) \<Rightarrow>
             if \<not> ok then (True, st)
             else
               (let auth = Header_Get (Header r) ''Proxy-Authorization''
                in if auth = [] then reject st
                   else if \<not> HasPrefix auth ''Basic '' then reject st
                   else
                     (case DecodeString (drop (length ''Basic '') auth) of
                        None \<Rightarrow> reject st
                      | Some decoded \<Rightarrow>
                          (let credentials = decoded;
                               colonIdx = Index credentials '':''
                           in if colonIdx < 0 then reject st
                              else
                                (let reqUser = take (nat colonIdx) credentials;
                                     reqPass = drop (nat colonIdx + 1) credentials;
                                     userMatch = (ConstantTimeCompare reqUser username = 1);
                                     passMatch = (ConstantTimeCompare reqPass password = 1)
                                 in if \<not> userMatch \<or> \<not> passMatch then reject st
                                    else (True, st)))))))"

text \<open>
  A decoder to run \<open>authenticate\<close> on concrete headers: standard base64 with padding,
  carriage returns and line feeds skipped, as \<open>base64.StdEncoding\<close> reads it.
\<close>

definition b64_value :: "char \<Rightarrow> nat option" where
  "b64_value c =
     (let n = (of_char c :: nat)
      in if 65 \<le> n \<and> n \<le> 90 then Some (n - 65)
         else if 97 \<le> n \<and> n \<le> 122 then Some (n - 71)
         else if 48 \<le> n \<and> n \<le> 57 then Some (n + 4)
         else if n = 43 then Some 62
         else if n = 47 then Some 63
         else None)"

fun b64_quads :: "string \<Rightarrow> string option" where
  "b64_quads [] = Some []"
| "b64_quads (a # b # c # d # rest) =
     (case (b64_value a, b64_value b) of
        (Some x, Some y) \<Rightarrow>
          if rest = [] \<and> c = CHR ''='' \<and> d = CHR ''=''
          then Some [char_of (x * 4 + y div 16)]
          else
            (case b64_value c of
               None \<Rightarrow> None
             | Some z \<Rightarrow>
                 if rest = [] \<and> d = CHR ''=''
                 then Some [char_of (x * 4 + y div 16), char_of ((y mod 16) * 16 + z div 4)]
                 else
                   (case (b64_value d, b64_quads rest) of
                      (Some u, Some bytes) \<Rightarrow>
                        Some (char_of (x * 4 + y div 16) # char_of ((y mod 16) * 16 + z div 4) #
                              char_of ((z mod 4) * 64 + u) # bytes)
                    | _ \<Rightarrow> None))
      | _ \<Rightarrow> None)"
| "b64_quads _ = None"

definition StdEncoding_DecodeString :: "string \<Rightarrow> string option" where
  "StdEncoding_DecodeString s = b64_quads (filter (\<lambda>c. c \<noteq> CHR 0x0D \<and> c \<noteq> CHR 0x0A) s)"

section \<open>Properties\<close>

subsection \<open>Signed readings of 64-bit words\<close>

lemma sint_incr:
  "sint (x :: 64 word) < 2 ^ 63 - 1 \<Longrightarrow> sint (x + 1) = sint x + 1"
proof -
  assume a: "sint x < 2 ^ 63 - 1"
  have "- (2 ^ 63) \<le> sint x" using sint_ge [of x] by simp
  then have "signed_take_bit 63 (sint x + 1) = sint x + 1"
    using a by (intro signed_take_bit_int_eq_self) auto
  then show ?thesis by (simp add: sint_word_add)
qed

lemma sint_neg:
  "sint (- (w :: 64 word)) = (if w = - (2 ^ 63) then - (2 ^ 63) else - sint w)"
proof (cases "w = - (2 ^ 63)")
  case True
  then show ?thesis by simp
next
  case False
  have "sint w \<noteq> - (2 ^ 63)"
  proof
    assume "sint w = - (2 ^ 63)"
    then have "sint w = sint (- (2 ^ 63) :: 64 word)" by simp
    then have "w = - (2 ^ 63)" by (rule signed_word_eqI)
    then show False using False by simp
  qed
  moreover have "- (2 ^ 63) \<le> sint w" "sint w < 2 ^ 63"
    using sint_ge [of w] sint_lt [of w] by simp_all
  ultimately have "signed_take_bit 63 (- sint w) = - sint w"
    by (intro signed_take_bit_int_eq_self) auto
  then show ?thesis using False by (simp add: sint_word_ariths)
qed

lemma Time_Add_neg:
  "Time_Add now (- window) = (if window = - (2 ^ 63) then now - 2 ^ 63 else now - sint window)"
  by (simp add: Time_Add_def sint_neg)

subsection \<open>The health state machine\<close>

text \<open>
  C7. From every status, one call of \<open>RecordFailure\<close> or \<open>RecordSuccess\<close> makes exactly the
  transition of the three-state machine. In \<open>Healthy\<close> a failure increments the failure
  count, resets the success count and moves to \<open>Unhealthy\<close> exactly when the new failure
  count has reached the failure threshold (otherwise the status stays \<open>Healthy\<close>). In
  \<open>Unhealthy\<close> a success moves to \<open>Recovering\<close> with a success count of one, and a failure
  stays \<open>Unhealthy\<close>. In \<open>Recovering\<close> a success increments the success count and moves to
  \<open>Healthy\<close> exactly when the new count has reached the success threshold (otherwise the
  status stays \<open>Recovering\<close>), and a failure moves to \<open>Unhealthy\<close>. The counts are Go
  \<open>int\<close>s: the increment is that of the 64-bit word, so the count read as a signed number
  goes up by one unless it was the greatest 64-bit value, and the thresholds are compared
  with the new count as signed numbers. The methods run under the status's mutex, so a
  sequence of calls is a sequence of these steps.
\<close>

theorem health_state_machine:
  "let f = snd (RecordFailure now err failureThreshold s);
       g = snd (RecordSuccess now successThreshold s)
   in    (State s = StateHealthy \<longrightarrow>
            ConsecutiveFailures f = ConsecutiveFailures s + 1 \<and>
            (sint (ConsecutiveFailures s) < 2 ^ 63 - 1 \<longrightarrow>
               sint (ConsecutiveFailures f) = sint (ConsecutiveFailures s) + 1) \<and>
            ConsecutiveSuccesses f = 0 \<and>
            (State f = StateUnhealthy \<longleftrightarrow>
               sint failureThreshold \<le> sint (ConsecutiveFailures f)) \<and>
            (State f = StateHealthy \<longleftrightarrow>
               sint (ConsecutiveFailures f) < sint failureThreshold) \<and>
            State g = StateHealthy) \<and>
         (State s = StateUnhealthy \<longrightarrow>
            State g = StateRecovering \<and> ConsecutiveSuccesses g = 1 \<and>
            State f = StateUnhealthy) \<and>
         (State s = StateRecovering \<longrightarrow>
            ConsecutiveSuccesses g = ConsecutiveSuccesses s + 1 \<and>
            (sint (ConsecutiveSuccesses s) < 2 ^ 63 - 1 \<longrightarrow>
               sint (ConsecutiveSuccesses g) = sint (ConsecutiveSuccesses s) + 1) \<and>
            (State g = StateHealthy \<longleftrightarrow>
               sint successThreshold \<le> sint (ConsecutiveSuccesses g)) \<and>
            (State g = StateRecovering \<longleftrightarrow>
               sint (ConsecutiveSuccesses g) < sint successThreshold) \<and>
            State f = StateUnhealthy) \<and>
         fst (RecordFailure now err failureThreshold s) = (State f \<noteq> State s) \<and>
         fst (RecordSuccess now successThreshold s) = (State g \<noteq> State s)"
  by (cases "State s")
     (auto simp add: RecordFailure_def RecordSuccess_def Let_def word_sle_eq sint_incr)

theorem health_state_machine_witness:
  "State (snd (RecordFailure 7 (Some ''timeout'') 3 ((NewIPStatus ''10.0.0.1'')\<lparr>ConsecutiveFailures := 2\<rparr>)))
     = StateUnhealthy \<and>
   sint (ConsecutiveFailures
     (snd (RecordFailure 7 (Some ''timeout'') 3 ((NewIPStatus ''10.0.0.1'')\<lparr>ConsecutiveFailures := 2\<rparr>))))
     = 3 \<and>
   State (snd (RecordSuccess 8 2 ((NewIPStatus ''10.0.0.1'')\<lparr>State := StateUnhealthy\<rparr>)))
     = StateRecovering \<and>
   State (snd (RecordSuccess 9 2
     ((NewIPStatus ''10.0.0.1'')\<lparr>State := StateRecovering, ConsecutiveSuccesses := 1\<rparr>)))
     = StateHealthy"
  using health_state_machine [where s = "(NewIPStatus ''10.0.0.1'')\<lparr>ConsecutiveFailures := 2\<rparr>"
          and now = 7 and err = "Some ''timeout''" and failureThreshold = 3 and successThreshold = 2]
        health_state_machine [where s = "(NewIPStatus ''10.0.0.1'')\<lparr>State := StateUnhealthy\<rparr>"
          and now = 8 and err = None and failureThreshold = 3 and successThreshold = 2]
        health_state_machine [where s = "(NewIPStatus ''10.0.0.1'')\<lparr>State := StateRecovering, ConsecutiveSuccesses := 1\<rparr>"
          and now = 9 and err = None and failureThreshold = 3 and successThreshold = 2]
  by (simp add: NewIPStatus_def Let_def)

text \<open>
  At the greatest 64-bit value the increment wraps: the count becomes the least value,
  which is below every threshold, and a healthy status stays healthy.
\<close>

lemma RecordFailure_wraps_at_MaxInt64:
  "sint (ConsecutiveFailures (snd (RecordFailure 7 None 3
       ((NewIPStatus ''10.0.0.1'')\<lparr>ConsecutiveFailures := 2 ^ 63 - 1\<rparr>)))) = - (2 ^ 63) \<and>
   State (snd (RecordFailure 7 None 3
       ((NewIPStatus ''10.0.0.1'')\<lparr>ConsecutiveFailures := 2 ^ 63 - 1\<rparr>))) = StateHealthy"
  by (simp add: RecordFailure_def NewIPStatus_def Let_def word_sle_eq)

subsection \<open>The limiter\<close>

text \<open>Signed readings of the 64-bit counters.\<close>

lemma sint_scast_up: "sint (scast (w::32 word) :: 64 word) = sint w"
  by (rule sint_up_scast) (simp add: is_up)

lemma sint_succ: "sint (x :: 64 word) < sint (m :: 64 word) \<Longrightarrow> sint (x + 1) = sint x + 1"
proof -
  assume a: "sint x < sint m"
  have "sint m < 2 ^ 63" using sint_lt [of m] by simp
  moreover have "- (2 ^ 63) \<le> sint x" using sint_ge [of x] by simp
  ultimately have "signed_take_bit 63 (sint x + 1) = sint x + 1"
    using a by (intro signed_take_bit_int_eq_self) auto
  then show ?thesis by (simp add: sint_word_add)
qed

lemma sint_pred: "0 < sint (x :: 64 word) \<Longrightarrow> sint (x - 1) = sint x - 1"
proof -
  assume a: "0 < sint x"
  have "sint x < 2 ^ 63" using sint_lt [of x] by simp
  then have "signed_take_bit 63 (sint x - 1) = sint x - 1"
    using a by (intro signed_take_bit_int_eq_self) auto
  then show ?thesis by (simp add: sint_word_diff)
qed

lemma sint_word_of_int_le: "0 \<le> k \<Longrightarrow> sint (word_of_int k :: 32 word) \<le> k"
  by (simp add: sint_sbintrunc' signed_take_bit_int_less_eq_self_iff)

lemma fold_upd_zero:
  "fold (\<lambda>ip m. m(ip \<mapsto> (0 :: 64 word))) addrs m k = (if k \<in> set addrs then Some 0 else m k)"
  by (induction addrs arbitrary: m) auto

lemma GetIPCount_New: "GetIPCount ip (New mp mt addrs) = 0"
  by (simp add: GetIPCount_def New_def fold_upd_zero)

lemma paired_take: "paired ops c \<Longrightarrow> paired (take n ops) c"
proof (induction ops arbitrary: c n)
  case Nil
  then show ?case by simp
next
  case (Cons a ops)
  show ?case
  proof (cases n)
    case 0
    then show ?thesis by simp
  next
    case (Suc m)
    then show ?thesis using Cons by (cases a) auto
  qed
qed

lemma GetIPCount_total_upd [simp]: "GetIPCount k (l\<lparr>total := t\<rparr>) = GetIPCount k l"
  by (simp add: GetIPCount_def)

lemma GetIPCount_perIP_upd:
  "GetIPCount k (l\<lparr>perIP := (perIP l)(ip \<mapsto> v)\<rparr>) = (if k = ip then v else GetIPCount k l)"
  by (simp add: GetIPCount_def)

lemma GetIPCount_Some: "perIP l ip = Some c \<Longrightarrow> GetIPCount ip l = c"
  by (simp add: GetIPCount_def)

lemma GetIPCount_None: "perIP l ip = None \<Longrightarrow> GetIPCount ip l = 0"
  by (simp add: GetIPCount_def)

lemma slots_total_call [simp]:
  "slots_total (add_mset c calls) holders = slots_total calls holders + int (total_slots c)"
  by (simp add: slots_total_def)

lemma slots_total_holder [simp]:
  "slots_total calls (add_mset ip holders) = slots_total calls holders + 1"
  by (simp add: slots_total_def)

lemma slots_ip_call [simp]:
  "slots_ip k (add_mset c calls) holders = slots_ip k calls holders + int (ip_slots k c)"
  by (simp add: slots_ip_def)

lemma slots_ip_holder [simp]:
  "slots_ip k calls (add_mset ip holders) = slots_ip k calls holders + (if k = ip then 1 else 0)"
  by (simp add: slots_ip_def)

lemma slots_nonneg: "0 \<le> slots_total calls holders" "0 \<le> slots_ip k calls holders"
  unfolding slots_total_def slots_ip_def
  by (rule add_nonneg_nonneg, rule of_nat_0_le_iff, rule of_nat_0_le_iff)+

lemma loaded_below_limits:
  "maxTotal l' = maxTotal l \<Longrightarrow> maxPerIP l' = maxPerIP l \<Longrightarrow> loaded_below l' c = loaded_below l c"
  by (cases c) simp_all

lemma step_invI:
  assumes "sint (total l) = slots_total calls holders"
    and "\<And>k. sint (GetIPCount k l) = slots_ip k calls holders"
    and "slots_total calls holders \<le> max 0 (sint (maxTotal l))"
    and "\<And>k. slots_ip k calls holders \<le> max 0 (sint (maxPerIP l))"
    and "\<And>c. c \<in># calls \<Longrightarrow> loaded_below l c"
  shows "step_inv (l, calls, holders)"
  using assms by (simp add: step_inv_def)

lemma step_invD:
  assumes "step_inv (l, calls, holders)"
  shows "sint (total l) = slots_total calls holders"
    and "\<And>k. sint (GetIPCount k l) = slots_ip k calls holders"
    and "slots_total calls holders \<le> max 0 (sint (maxTotal l))"
    and "\<And>k. slots_ip k calls holders \<le> max 0 (sint (maxPerIP l))"
    and "\<And>c. c \<in># calls \<Longrightarrow> loaded_below l c"
  using assms by (simp_all add: step_inv_def)

lemma step_inv_step:
  assumes "step cfg cfg'" and "step_inv cfg"
  shows "step_inv cfg'"
  using assms
proof (induction rule: step.induct)
  case (acquire_call l calls holders ip)
  note i = step_invD [OF acquire_call]
  show ?case using i by (intro step_invI) auto
next
  case (load_total_full l ip calls holders)
  note i = step_invD [OF load_total_full(2)]
  show ?case using i by (intro step_invI) auto
next
  case (load_total l ip calls holders)
  note i = step_invD [OF load_total(2)]
  show ?case using i load_total(1) by (intro step_invI) (auto simp: word_sle_eq sint_scast_up)
next
  case (cas_total_ok l current ip calls holders)
  note i = step_invD [OF cas_total_ok(2)]
  have lt: "sint (total l) < sint (maxTotal l)" using i(5) [of "AcqCasTotal ip current"] cas_total_ok(1) by simp
  then have "sint (total l) < sint (scast (maxTotal l) :: 64 word)" by (simp add: sint_scast_up)
  from sint_succ [OF this] have s: "sint (total l + 1) = sint (total l) + 1" .
  show ?case
  proof (intro step_invI)
    show "sint (total (l\<lparr>total := current + 1\<rparr>)) = slots_total (add_mset (AcqLookup ip) calls) holders"
      using i(1) s cas_total_ok(1) by simp
    show "slots_total (add_mset (AcqLookup ip) calls) holders \<le> max 0 (sint (maxTotal (l\<lparr>total := current + 1\<rparr>)))"
      using i(1) lt by simp
    show "\<And>k. sint (GetIPCount k (l\<lparr>total := current + 1\<rparr>)) = slots_ip k (add_mset (AcqLookup ip) calls) holders"
      using i(2) by simp
    show "\<And>k. slots_ip k (add_mset (AcqLookup ip) calls) holders \<le> max 0 (sint (maxPerIP (l\<lparr>total := current + 1\<rparr>)))"
      using i(4) by simp
    show "\<And>c. c \<in># add_mset (AcqLookup ip) calls \<Longrightarrow> loaded_below (l\<lparr>total := current + 1\<rparr>) c"
      using i(5) by (auto simp: loaded_below_limits [of "l\<lparr>total := current + 1\<rparr>" l])
  qed
next
  case (cas_total_retry l current ip calls holders)
  note i = step_invD [OF cas_total_retry(2)]
  show ?case using i by (intro step_invI) auto
next
  case (lookup_found l ip c calls holders)
  note i = step_invD [OF lookup_found(2)]
  show ?case using i by (intro step_invI) auto
next
  case (lookup_missing l ip calls holders)
  note i = step_invD [OF lookup_missing(2)]
  show ?case using i by (intro step_invI) auto
next
  case (create l ip calls holders)
  note i = step_invD [OF create]
  let ?l = "case perIP l ip of None \<Rightarrow> l\<lparr>perIP := (perIP l)(ip \<mapsto> 0)\<rparr> | Some c \<Rightarrow> l"
  have g: "GetIPCount k ?l = GetIPCount k l" for k
    by (auto simp: GetIPCount_def split: option.splits)
  have f: "total ?l = total l" "maxTotal ?l = maxTotal l" "maxPerIP ?l = maxPerIP l"
    by (simp_all split: option.splits)
  show ?case using i by (intro step_invI) (auto simp: g f loaded_below_limits [of ?l l])
next
  case (load_ip_full l ip ipCount calls holders)
  note i = step_invD [OF load_ip_full(3)]
  show ?case using i by (intro step_invI) auto
next
  case (load_ip l ip ipCount calls holders)
  note i = step_invD [OF load_ip(3)]
  show ?case using i load_ip(1,2) by (intro step_invI) (auto simp: word_sle_eq sint_scast_up)
next
  case (rollback l ip calls holders)
  note i = step_invD [OF rollback]
  have "0 < sint (total l)" using i(1) slots_nonneg(1) [of calls holders] by simp
  from sint_pred [OF this] have s: "sint (total l - 1) = sint (total l) - 1" .
  show ?case using i s
    by (intro step_invI) (auto simp: loaded_below_limits [of "l\<lparr>total := total l - 1\<rparr>" l])
next
  case (cas_ip_ok l ip ipCount calls holders)
  note i = step_invD [OF cas_ip_ok(2)]
  have lt: "sint ipCount < sint (maxPerIP l)" using i(5) [of "AcqCasIP ip ipCount"] by simp
  then have "sint ipCount < sint (scast (maxPerIP l) :: 64 word)" by (simp add: sint_scast_up)
  from sint_succ [OF this] have s: "sint (ipCount + 1) = sint ipCount + 1" .
  have g: "GetIPCount ip l = ipCount" using cas_ip_ok(1) by (simp add: GetIPCount_Some)
  let ?l = "l\<lparr>perIP := (perIP l)(ip \<mapsto> ipCount + 1)\<rparr>"
  show ?case
  proof (intro step_invI)
    show "sint (total ?l) = slots_total calls (add_mset ip holders)" using i(1) by simp
    show "slots_total calls (add_mset ip holders) \<le> max 0 (sint (maxTotal ?l))" using i(3) by simp
    show "sint (GetIPCount k ?l) = slots_ip k calls (add_mset ip holders)" for k
      using i(2) [of k] i(2) [of ip] s g by (simp add: GetIPCount_perIP_upd)
    show "slots_ip k calls (add_mset ip holders) \<le> max 0 (sint (maxPerIP ?l))" for k
      using i(4) [of k] i(2) [of ip] g lt by (auto simp: max_def)
    show "\<And>c. c \<in># calls \<Longrightarrow> loaded_below ?l c"
      using i(5) by (auto simp: loaded_below_limits [of ?l l])
  qed
next
  case (cas_ip_retry l ip ipCount calls holders)
  note i = step_invD [OF cas_ip_retry(2)]
  show ?case using i by (intro step_invI) auto
next
  case (release_call l calls ip holders)
  note i = step_invD [OF release_call]
  show ?case
  proof (intro step_invI)
    show "sint (total l) = slots_total (add_mset (RelLookup ip) calls) holders" using i(1) by simp
    show "slots_total (add_mset (RelLookup ip) calls) holders \<le> max 0 (sint (maxTotal l))"
      using i(3) by simp
    show "sint (GetIPCount k l) = slots_ip k (add_mset (RelLookup ip) calls) holders" for k
      using i(2) [of k] by (cases "k = ip") simp_all
    show "slots_ip k (add_mset (RelLookup ip) calls) holders \<le> max 0 (sint (maxPerIP l))" for k
      using i(4) [of k] by (cases "k = ip") simp_all
    show "\<And>c. c \<in># add_mset (RelLookup ip) calls \<Longrightarrow> loaded_below l c"
      using i(5) by auto
  qed
next
  case (release_found l ip c calls holders)
  note i = step_invD [OF release_found(2)]
  show ?case using i by (intro step_invI) auto
next
  case (release_missing l ip calls holders)
  note i = step_invD [OF release_missing(2)]
  have "sint (GetIPCount ip l) = 0" using release_missing(1) by (simp add: GetIPCount_None)
  moreover have "0 < sint (GetIPCount ip l)"
    using i(2) [of ip] slots_nonneg(2) [of ip calls holders] by simp
  ultimately show ?case by simp
next
  case (release_dec_ip l ip c calls holders)
  note i = step_invD [OF release_dec_ip(2)]
  have g: "GetIPCount ip l = c" using release_dec_ip(1) by (simp add: GetIPCount_Some)
  then have "0 < sint c" using i(2) [of ip] slots_nonneg(2) [of ip calls holders] by simp
  from sint_pred [OF this] have s: "sint (c - 1) = sint c - 1" .
  let ?l = "l\<lparr>perIP := (perIP l)(ip \<mapsto> c - 1)\<rparr>"
  show ?case
  proof (intro step_invI)
    show "sint (total ?l) = slots_total (add_mset (RelDecTotal ip) calls) holders" using i(1) by simp
    show "slots_total (add_mset (RelDecTotal ip) calls) holders \<le> max 0 (sint (maxTotal ?l))"
      using i(3) by simp
    show "sint (GetIPCount k ?l) = slots_ip k (add_mset (RelDecTotal ip) calls) holders" for k
      using i(2) [of k] i(2) [of ip] s g by (simp add: GetIPCount_perIP_upd)
    show "slots_ip k (add_mset (RelDecTotal ip) calls) holders \<le> max 0 (sint (maxPerIP ?l))" for k
      using i(4) [of k] by (simp split: if_splits)
    show "\<And>x. x \<in># add_mset (RelDecTotal ip) calls \<Longrightarrow> loaded_below ?l x"
      using i(5) by (auto simp: loaded_below_limits [of ?l l])
  qed
next
  case (release_dec_total l ip calls holders)
  note i = step_invD [OF release_dec_total]
  have "0 < sint (total l)" using i(1) slots_nonneg(1) [of calls holders] by simp
  from sint_pred [OF this] have s: "sint (total l - 1) = sint (total l) - 1" .
  show ?case using i s
    by (intro step_invI) (auto simp: loaded_below_limits [of "l\<lparr>total := total l - 1\<rparr>" l])
qed


lemma step_limits:
  "step cfg cfg' \<Longrightarrow> maxPerIP (fst cfg') = maxPerIP (fst cfg) \<and> maxTotal (fst cfg') = maxTotal (fst cfg)"
  by (induction rule: step.induct) (simp_all split: option.splits)

lemma steps_limits:
  "step\<^sup>*\<^sup>* cfg cfg' \<Longrightarrow> maxPerIP (fst cfg') = maxPerIP (fst cfg) \<and> maxTotal (fst cfg') = maxTotal (fst cfg)"
  by (induction rule: rtranclp_induct) (simp_all add: step_limits)

lemma steps_inv: "step\<^sup>*\<^sup>* cfg cfg' \<Longrightarrow> step_inv cfg \<Longrightarrow> step_inv cfg'"
  by (induction rule: rtranclp_induct) (simp_all add: step_inv_step)

lemma step_inv_New: "step_inv (New mp mt addrs, {#}, {#})"
  by (simp add: step_inv_def slots_total_def slots_ip_def GetIPCount_New) (simp add: New_def)

text \<open>A call run without interference is a sequence of steps.\<close>

lemma step_then: "step a b \<Longrightarrow> step\<^sup>*\<^sup>* b c \<Longrightarrow> step\<^sup>*\<^sup>* a c"
  by (rule converse_rtranclp_into_rtranclp)

lemma steps_then: "step\<^sup>*\<^sup>* a b \<Longrightarrow> step b c \<Longrightarrow> step\<^sup>*\<^sup>* a c"
  by (rule rtranclp.rtrancl_into_rtrancl)

lemma step_once: "step a b \<Longrightarrow> step\<^sup>*\<^sup>* a b"
  by (rule r_into_rtranclp)

lemma Acquire_steps:
  "step\<^sup>*\<^sup>* (l, calls, holders)
      (snd (Acquire ip l), calls, if fst (Acquire ip l) = None then add_mset ip holders else holders)"
proof -
  have s0: "step (l, calls, holders) (l, add_mset (AcqLoadTotal ip) calls, holders)"
    by (rule step.acquire_call)
  show ?thesis
  proof (cases "word_sle (scast (maxTotal l) :: 64 word) (total l)")
    case True
    have "step (l, add_mset (AcqLoadTotal ip) calls, holders) (l, calls, holders)"
      by (rule step.load_total_full [OF True])
    then show ?thesis using s0 True by (simp add: Acquire_def)
  next
    case nt: False
    let ?l1 = "l\<lparr>total := total l + 1\<rparr>"
    let ?l2 = "case perIP ?l1 ip of None \<Rightarrow> ?l1\<lparr>perIP := (perIP ?l1)(ip \<mapsto> 0)\<rparr> | Some c \<Rightarrow> ?l1"
    have s1: "step (l, add_mset (AcqLoadTotal ip) calls, holders)
                   (l, add_mset (AcqCasTotal ip (total l)) calls, holders)"
      by (rule step.load_total [OF nt])
    have s2: "step (l, add_mset (AcqCasTotal ip (total l)) calls, holders)
                   (?l1, add_mset (AcqLookup ip) calls, holders)"
      by (rule step.cas_total_ok) simp
    have s3: "step\<^sup>*\<^sup>* (?l1, add_mset (AcqLookup ip) calls, holders)
                   (?l2, add_mset (AcqLoadIP ip) calls, holders)"
    proof (cases "perIP ?l1 ip")
      case None
      have a: "step (?l1, add_mset (AcqLookup ip) calls, holders) (?l1, add_mset (AcqCreate ip) calls, holders)"
        by (rule step.lookup_missing [OF None])
      have b: "step (?l1, add_mset (AcqCreate ip) calls, holders) (?l2, add_mset (AcqLoadIP ip) calls, holders)"
        by (rule step.create)
      have "step\<^sup>*\<^sup>* (?l1, add_mset (AcqLookup ip) calls, holders) (?l2, add_mset (AcqLoadIP ip) calls, holders)"
        by (rule step_then [OF a], rule step_once [OF b])
      then show ?thesis .
    next
      case (Some c)
      have "step (?l1, add_mset (AcqLookup ip) calls, holders) (?l1, add_mset (AcqLoadIP ip) calls, holders)"
        by (rule step.lookup_found [OF Some])
      moreover have "?l2 = ?l1" using Some by simp
      ultimately show ?thesis by (simp only: step_once)
    qed
    obtain ipCount where c: "perIP ?l2 ip = Some ipCount"
      by (cases "perIP l ip") auto
    have pre: "step\<^sup>*\<^sup>* (l, calls, holders) (?l2, add_mset (AcqLoadIP ip) calls, holders)"
      by (rule step_then [OF s0],
          rule step_then [OF s1],
          rule step_then [OF s2], rule s3)
    show ?thesis
    proof (cases "word_sle (scast (maxPerIP l) :: 64 word) ipCount")
      case True
      then have t: "word_sle (scast (maxPerIP ?l2) :: 64 word) ipCount"
        by (simp split: option.splits)
      have a: "step (?l2, add_mset (AcqLoadIP ip) calls, holders) (?l2, add_mset (AcqRollback ip) calls, holders)"
        by (rule step.load_ip_full [OF c t])
      have b: "step (?l2, add_mset (AcqRollback ip) calls, holders) (?l2\<lparr>total := total ?l2 - 1\<rparr>, calls, holders)"
        by (rule step.rollback)
      have r: "Acquire ip l = (Some ErrIPLimitReached, ?l2\<lparr>total := total ?l2 - 1\<rparr>)"
        using nt c True by (simp add: Acquire_def Let_def)
      have "step\<^sup>*\<^sup>* (l, calls, holders) (?l2\<lparr>total := total ?l2 - 1\<rparr>, calls, holders)"
        by (rule steps_then [OF steps_then [OF pre a] b])
      then show ?thesis unfolding r by simp
    next
      case False
      then have t: "\<not> word_sle (scast (maxPerIP ?l2) :: 64 word) ipCount"
        by (simp split: option.splits)
      have a: "step (?l2, add_mset (AcqLoadIP ip) calls, holders) (?l2, add_mset (AcqCasIP ip ipCount) calls, holders)"
        by (rule step.load_ip [OF c t])
      have b: "step (?l2, add_mset (AcqCasIP ip ipCount) calls, holders)
                    (?l2\<lparr>perIP := (perIP ?l2)(ip \<mapsto> ipCount + 1)\<rparr>, calls, add_mset ip holders)"
        by (rule step.cas_ip_ok [OF c])
      have r: "Acquire ip l = (None, ?l2\<lparr>perIP := (perIP ?l2)(ip \<mapsto> ipCount + 1)\<rparr>)"
        using nt c False by (simp add: Acquire_def Let_def)
      have "step\<^sup>*\<^sup>* (l, calls, holders)
              (?l2\<lparr>perIP := (perIP ?l2)(ip \<mapsto> ipCount + 1)\<rparr>, calls, add_mset ip holders)"
        by (rule steps_then [OF steps_then [OF pre a] b])
      then show ?thesis unfolding r by simp
    qed
  qed
qed

lemma Release_steps:
  "step\<^sup>*\<^sup>* (l, calls, add_mset ip holders) (Release ip l, calls, holders)"
proof -
  have s0: "step (l, calls, add_mset ip holders) (l, add_mset (RelLookup ip) calls, holders)"
    by (rule step.release_call)
  show ?thesis
  proof (cases "perIP l ip")
    case None
    have a: "step (l, add_mset (RelLookup ip) calls, holders) (l, add_mset (RelDecTotal ip) calls, holders)"
      by (rule step.release_missing [OF None])
    have b: "step (l, add_mset (RelDecTotal ip) calls, holders) (l\<lparr>total := total l - 1\<rparr>, calls, holders)"
      by (rule step.release_dec_total)
    have r: "Release ip l = l\<lparr>total := total l - 1\<rparr>" using None by (simp add: Release_def)
    show ?thesis unfolding r
      by (rule step_then [OF s0],
          rule step_then [OF a], rule step_once [OF b])
  next
    case (Some c)
    let ?l1 = "l\<lparr>perIP := (perIP l)(ip \<mapsto> c - 1)\<rparr>"
    have a: "step (l, add_mset (RelLookup ip) calls, holders) (l, add_mset (RelDecIP ip) calls, holders)"
      by (rule step.release_found [OF Some])
    have b: "step (l, add_mset (RelDecIP ip) calls, holders) (?l1, add_mset (RelDecTotal ip) calls, holders)"
      by (rule step.release_dec_ip [OF Some])
    have c: "step (?l1, add_mset (RelDecTotal ip) calls, holders) (?l1\<lparr>total := total ?l1 - 1\<rparr>, calls, holders)"
      by (rule step.release_dec_total)
    have r: "Release ip l = ?l1\<lparr>total := total ?l1 - 1\<rparr>" using Some by (simp add: Release_def)
    show ?thesis unfolding r
      by (rule step_then [OF s0],
          rule step_then [OF a],
          rule step_then [OF b], rule step_once [OF c])
  qed
qed

lemma op_step_steps:
  assumes "\<And>ip. op = OpRelease ip \<Longrightarrow> ip \<in># snd c"
  shows "step\<^sup>*\<^sup>* (fst c, {#}, snd c) (fst (op_step op c), {#}, snd (op_step op c))"
proof (cases c; cases op)
  fix l H ip assume e: "c = (l, H)" "op = OpAcquire ip"
  show ?thesis using Acquire_steps [of l "{#}" H ip] e
    by (cases "Acquire ip l") (auto split: option.splits)
next
  fix l H ip assume e: "c = (l, H)" "op = OpRelease ip"
  then have "ip \<in># H" using assms by simp
  then obtain H' where "H = add_mset ip H'" by (meson mset_add)
  then show ?thesis using Release_steps [of l "{#}" ip H'] e by simp
qed

lemma run_ops_steps:
  "paired ops c \<Longrightarrow> step\<^sup>*\<^sup>* (fst c, {#}, snd c) (fst (run_ops ops c), {#}, snd (run_ops ops c))"
proof (induction ops arbitrary: c)
  case Nil
  then show ?case by (simp add: run_ops_def)
next
  case (Cons a ops)
  have 1: "step\<^sup>*\<^sup>* (fst c, {#}, snd c) (fst (op_step a c), {#}, snd (op_step a c))"
    using Cons.prems by (intro op_step_steps) auto
  have "paired ops (op_step a c)" using Cons.prems by (cases a) auto
  from Cons.IH [OF this] have 2: "step\<^sup>*\<^sup>* (fst (op_step a c), {#}, snd (op_step a c))
      (fst (run_ops ops (op_step a c)), {#}, snd (run_ops ops (op_step a c)))" .
  show ?case using 1 2 by (simp add: run_ops_def)
qed


lemma reachable_bounds:
  assumes "0 \<le> mp" and "0 \<le> mt"
    and "step\<^sup>*\<^sup>* (New mp mt addrs, {#}, {#}) (l, calls, holders)"
  shows "0 \<le> sint (GetIPCount ip l) \<and> sint (GetIPCount ip l) \<le> mp \<and>
         0 \<le> sint (GetTotalCount l) \<and> sint (GetTotalCount l) \<le> mt \<and>
         (calls = {#} \<and> holders = {#} \<longrightarrow> GetTotalCount l = 0 \<and> GetIPCount ip l = 0)"
proof -
  have inv: "step_inv (l, calls, holders)"
    by (rule steps_inv [OF assms(3) step_inv_New])
  note i = step_invD [OF inv]
  have lim: "maxPerIP l = word_of_int mp" "maxTotal l = word_of_int mt"
    using steps_limits [OF assms(3)] by (simp_all add: New_def)
  have b1: "max 0 (sint (maxPerIP l)) \<le> mp"
    using sint_word_of_int_le [OF assms(1)] assms(1) lim by simp
  have b2: "max 0 (sint (maxTotal l)) \<le> mt"
    using sint_word_of_int_le [OF assms(2)] assms(2) lim by simp
  have z: "calls = {#} \<and> holders = {#} \<Longrightarrow> total l = 0 \<and> GetIPCount ip l = 0"
    using i(1) i(2) [of ip] by (simp add: slots_total_def slots_ip_def signed_eq_0_iff)
  show ?thesis
    using i(1) i(2) [of ip] i(3) i(4) [of ip] b1 b2 z
      slots_nonneg(1) [of calls holders] slots_nonneg(2) [of ip calls holders]
    by (auto simp: GetTotalCount_def)
qed

text \<open>
  C1. Start from \<open>New mp mt addrs\<close> with non-negative limits. In every configuration that
  interleaved \<open>Acquire\<close> and \<open>Release\<close> calls can reach, where a \<open>Release ip\<close> starts only
  for a holder of \<open>ip\<close> (a successful \<open>Acquire ip\<close> not yet released), each per-IP
  counter lies between 0 and \<open>mp\<close> and the total counter between 0 and \<open>mt\<close>; and when no
  call is in progress and no holder is left, \<open>GetTotalCount\<close> and every \<open>GetIPCount\<close> are
  zero. The same holds for calls run one after the other: after every prefix of a
  sequence in which every \<open>Release ip\<close> has a successful, not yet released \<open>Acquire ip\<close>
  before it, the counters are within these bounds, and they are zero whenever every
  successful \<open>Acquire\<close> has been released.
\<close>

theorem limiter_counters_bounded:
  assumes "0 \<le> mp" and "0 \<le> mt"
  shows
    "(step\<^sup>*\<^sup>* (New mp mt addrs, {#}, {#}) (l, calls, holders) \<longrightarrow>
        0 \<le> sint (GetIPCount ip l) \<and> sint (GetIPCount ip l) \<le> mp \<and>
        0 \<le> sint (GetTotalCount l) \<and> sint (GetTotalCount l) \<le> mt \<and>
        (calls = {#} \<and> holders = {#} \<longrightarrow> GetTotalCount l = 0 \<and> GetIPCount ip l = 0)) \<and>
     (paired ops (New mp mt addrs, {#}) \<longrightarrow>
        (let (l', holders') = run_ops (take n ops) (New mp mt addrs, {#})
         in 0 \<le> sint (GetIPCount ip l') \<and> sint (GetIPCount ip l') \<le> mp \<and>
            0 \<le> sint (GetTotalCount l') \<and> sint (GetTotalCount l') \<le> mt \<and>
            (holders' = {#} \<longrightarrow> GetTotalCount l' = 0 \<and> GetIPCount ip l' = 0)))"
proof (rule conjI; rule impI)
  assume "step\<^sup>*\<^sup>* (New mp mt addrs, {#}, {#}) (l, calls, holders)"
  from reachable_bounds [OF assms this]
  show "0 \<le> sint (GetIPCount ip l) \<and> sint (GetIPCount ip l) \<le> mp \<and>
        0 \<le> sint (GetTotalCount l) \<and> sint (GetTotalCount l) \<le> mt \<and>
        (calls = {#} \<and> holders = {#} \<longrightarrow> GetTotalCount l = 0 \<and> GetIPCount ip l = 0)" .
next
  assume p: "paired ops (New mp mt addrs, {#})"
  obtain l' H' where r: "run_ops (take n ops) (New mp mt addrs, {#}) = (l', H')"
    by (cases "run_ops (take n ops) (New mp mt addrs, {#})")
  have "step\<^sup>*\<^sup>* (New mp mt addrs, {#}, {#}) (l', {#}, H')"
    using run_ops_steps [OF paired_take [OF p, of n]] r by simp
  from reachable_bounds [OF assms this, of ip]
  show "let (l', holders') = run_ops (take n ops) (New mp mt addrs, {#})
         in 0 \<le> sint (GetIPCount ip l') \<and> sint (GetIPCount ip l') \<le> mp \<and>
            0 \<le> sint (GetTotalCount l') \<and> sint (GetTotalCount l') \<le> mt \<and>
            (holders' = {#} \<longrightarrow> GetTotalCount l' = 0 \<and> GetIPCount ip l' = 0)"
    by (simp add: r)
qed

theorem limiter_counters_bounded_witness:
  "step\<^sup>*\<^sup>* (New 1 2 [''a''], {#}, {#})
      (snd (Acquire ''a'' (New 1 2 [''a''])), {#AcqLoadTotal ''b''#}, {#''a''#}) \<and>
   sint (GetIPCount ''a'' (snd (Acquire ''a'' (New 1 2 [''a'']))) ) \<le> 1 \<and>
   paired [OpAcquire ''a'', OpAcquire ''a'', OpAcquire ''b'', OpRelease ''a'', OpRelease ''b'']
          (New 1 2 [''a''], {#}) \<and>
   sint (GetIPCount ''a'' (fst (run_ops (take 3
     [OpAcquire ''a'', OpAcquire ''a'', OpAcquire ''b'', OpRelease ''a'', OpRelease ''b''])
     (New 1 2 [''a''], {#})))) \<le> 1 \<and>
   GetTotalCount (fst (run_ops (take 5
     [OpAcquire ''a'', OpAcquire ''a'', OpAcquire ''b'', OpRelease ''a'', OpRelease ''b''])
     (New 1 2 [''a''], {#}))) = 0"
proof -
  have a: "fst (Acquire ''a'' (New 1 2 [''a''])) = None"
    by (simp add: Acquire_def New_def Let_def word_sle_eq)
  have s1: "step\<^sup>*\<^sup>* (New 1 2 [''a''], {#}, {#}) (snd (Acquire ''a'' (New 1 2 [''a''])), {#}, {#''a''#})"
    using Acquire_steps [of "New 1 2 [''a'']" "{#}" "{#}" "''a''"] a by simp
  have s2: "step (snd (Acquire ''a'' (New 1 2 [''a''])), {#}, {#''a''#})
      (snd (Acquire ''a'' (New 1 2 [''a''])), {#AcqLoadTotal ''b''#}, {#''a''#})"
    by (rule step.acquire_call)
  have r: "step\<^sup>*\<^sup>* (New 1 2 [''a''], {#}, {#})
      (snd (Acquire ''a'' (New 1 2 [''a''])), {#AcqLoadTotal ''b''#}, {#''a''#})"
    by (rule steps_then [OF s1 s2])
  have p: "paired [OpAcquire ''a'', OpAcquire ''a'', OpAcquire ''b'', OpRelease ''a'', OpRelease ''b'']
          (New 1 2 [''a''], {#})"
    by (simp add: Acquire_def Release_def New_def Let_def word_sle_eq)
  have h: "snd (run_ops (take 5
     [OpAcquire ''a'', OpAcquire ''a'', OpAcquire ''b'', OpRelease ''a'', OpRelease ''b''])
     (New 1 2 [''a''], {#})) = {#}"
    by (simp add: run_ops_def Acquire_def Release_def New_def Let_def word_sle_eq)
  have m: "(0::int) \<le> 1" "(0::int) \<le> 2" by simp_all
  show ?thesis
    using r p h
      limiter_counters_bounded [OF m, where addrs = "[''a'']"
        and l = "snd (Acquire ''a'' (New 1 2 [''a'']))" and calls = "{#AcqLoadTotal ''b''#}"
        and holders = "{#''a''#}" and ip = "''a''"
        and ops = "[OpAcquire ''a'', OpAcquire ''a'', OpAcquire ''b'', OpRelease ''a'', OpRelease ''b'']"
        and n = 3]
      limiter_counters_bounded [OF m, where addrs = "[''a'']"
        and l = "snd (Acquire ''a'' (New 1 2 [''a'']))" and calls = "{#AcqLoadTotal ''b''#}"
        and holders = "{#''a''#}" and ip = "''a''"
        and ops = "[OpAcquire ''a'', OpAcquire ''a'', OpAcquire ''b'', OpRelease ''a'', OpRelease ''b'']"
        and n = 5]
    by (auto simp: split_beta Let_def)
qed

text \<open>
  C2. A failed \<open>Acquire\<close> leaves the total counter and every per-IP counter at their
  values before the call. \<open>ErrTotalLimitReached\<close> is returned exactly when the total has
  reached \<open>maxTotal\<close>, and then the limiter is unchanged: nothing was incremented.
  \<open>ErrIPLimitReached\<close> is returned exactly when the total is below \<open>maxTotal\<close> and the
  counter of the IP has reached \<open>maxPerIP\<close>; the increment of the total is then undone by
  one decrement, and the only trace of the call is a zero counter for an IP that had none.
\<close>

theorem Acquire_failure_restores_counters:
  "(fst (Acquire ip l) \<noteq> None \<longrightarrow>
      GetTotalCount (snd (Acquire ip l)) = GetTotalCount l \<and>
      (\<forall>k. GetIPCount k (snd (Acquire ip l)) = GetIPCount k l)) \<and>
   (fst (Acquire ip l) = Some ErrTotalLimitReached \<longleftrightarrow>
      sint (maxTotal l) \<le> sint (total l)) \<and>
   (fst (Acquire ip l) = Some ErrTotalLimitReached \<longrightarrow> snd (Acquire ip l) = l) \<and>
   (fst (Acquire ip l) = Some ErrIPLimitReached \<longleftrightarrow>
      sint (total l) < sint (maxTotal l) \<and> sint (maxPerIP l) \<le> sint (GetIPCount ip l)) \<and>
   (fst (Acquire ip l) = Some ErrIPLimitReached \<longrightarrow>
      snd (Acquire ip l) =
        l\<lparr>total := (total l + 1) - 1,
          perIP := (case perIP l ip of None \<Rightarrow> (perIP l)(ip \<mapsto> 0) | Some c \<Rightarrow> perIP l)\<rparr>)"
proof -
  have g: "GetIPCount k (l\<lparr>perIP := (perIP l)(ip \<mapsto> 0)\<rparr>) = GetIPCount k l"
    if "perIP l ip = None" for k
    using that by (simp add: GetIPCount_def)
  show ?thesis
    by (cases "perIP l ip")
       (auto simp: Acquire_def Let_def GetTotalCount_def g word_sle_eq sint_scast_up
                   GetIPCount_def)
qed

theorem Acquire_failure_restores_counters_witness:
  "fst (Acquire ''10.0.0.1'' (snd (Acquire ''10.0.0.1'' (New 1 5 [''10.0.0.1''])))) =
     Some ErrIPLimitReached \<and>
   GetTotalCount (snd (Acquire ''10.0.0.1'' (snd (Acquire ''10.0.0.1'' (New 1 5 [''10.0.0.1''])))))
     = 1 \<and>
   fst (Acquire ''10.0.0.2'' (snd (Acquire ''10.0.0.1'' (New 1 1 [''10.0.0.1''])))) =
     Some ErrTotalLimitReached \<and>
   GetTotalCount (snd (Acquire ''10.0.0.2'' (snd (Acquire ''10.0.0.1'' (New 1 1 [''10.0.0.1''])))))
     = 1"
proof -
  have a: "Acquire ''10.0.0.1'' (New 1 5 [''10.0.0.1'']) =
      (None, \<lparr>maxPerIP = 1, maxTotal = 5, total = 1, perIP = [''10.0.0.1'' \<mapsto> 1]\<rparr>)"
    by (simp add: Acquire_def New_def Let_def word_sle_eq)
  have b: "Acquire ''10.0.0.1'' (New 1 1 [''10.0.0.1'']) =
      (None, \<lparr>maxPerIP = 1, maxTotal = 1, total = 1, perIP = [''10.0.0.1'' \<mapsto> 1]\<rparr>)"
    by (simp add: Acquire_def New_def Let_def word_sle_eq)
  show ?thesis
    using Acquire_failure_restores_counters
            [of "''10.0.0.1''" "\<lparr>maxPerIP = 1, maxTotal = 5, total = 1, perIP = [''10.0.0.1'' \<mapsto> 1]\<rparr>"]
          Acquire_failure_restores_counters
            [of "''10.0.0.2''" "\<lparr>maxPerIP = 1, maxTotal = 1, total = 1, perIP = [''10.0.0.1'' \<mapsto> 1]\<rparr>"]
    by (simp add: a b GetTotalCount_def GetIPCount_def)
qed

text \<open>
  C10. \<open>Release\<close> cannot fail. Every call decrements the total counter by one (an
  \<open>atomic.Int64\<close>, so the reading drops by one unless it was the least 64-bit value) and
  decrements the counter of the IP only when the map has one; the limits stay as they
  were. A \<open>Release\<close> on a fresh limiter, with no \<open>Acquire\<close> before it, leaves
  \<open>GetTotalCount\<close> at \<open>-1\<close>: \<open>Release\<close> alone does not keep the counters non-negative.
\<close>

theorem Release_decrements_unconditionally:
  "GetTotalCount (Release ip l) = GetTotalCount l - 1 \<and>
   (- (2 ^ 63) < sint (GetTotalCount l) \<longrightarrow>
      sint (GetTotalCount (Release ip l)) = sint (GetTotalCount l) - 1) \<and>
   perIP (Release ip l) =
     (case perIP l ip of None \<Rightarrow> perIP l | Some c \<Rightarrow> (perIP l)(ip \<mapsto> c - 1)) \<and>
   maxPerIP (Release ip l) = maxPerIP l \<and> maxTotal (Release ip l) = maxTotal l \<and>
   sint (GetTotalCount (Release ''10.0.0.1'' (New 1 1 [''10.0.0.1'']))) = - 1 \<and>
   sint (GetIPCount ''10.0.0.1'' (Release ''10.0.0.1'' (New 1 1 [''10.0.0.1'']))) = - 1 \<and>
   sint (GetTotalCount (Release ''10.0.0.9'' (New 1 1 [''10.0.0.1'']))) = - 1 \<and>
   GetIPCount ''10.0.0.9'' (Release ''10.0.0.9'' (New 1 1 [''10.0.0.1''])) = 0"
proof -
  have s: "sint (total l - 1) = sint (total l) - 1" if "- (2 ^ 63) < sint (total l)"
  proof -
    have "sint (total l) < 2 ^ 63" using sint_lt [of "total l"] by simp
    then have "signed_take_bit 63 (sint (total l) - 1) = sint (total l) - 1"
      using that by (intro signed_take_bit_int_eq_self) auto
    then show ?thesis by (simp add: sint_word_diff)
  qed
  show ?thesis
    by (cases "perIP l ip")
       (simp_all add: Release_def GetTotalCount_def GetIPCount_def New_def s)
qed

theorem Release_decrements_unconditionally_witness:
  "- (2 ^ 63) < sint (GetTotalCount (New 2 2 [])) \<and>
   sint (GetTotalCount (Release ''10.0.0.1'' (New 2 2 []))) = - 1"
  using Release_decrements_unconditionally [of "''10.0.0.1''" "New 2 2 []"]
  by (simp add: New_def GetTotalCount_def)

subsection \<open>The history store\<close>

lemma fold_delete:
  "fold (\<lambda>host m. m(host := None)) xs (m :: string \<rightharpoonup> HostHistory) k = (if k \<in> set xs then None else m k)"
  by (induction xs arbitrary: m) auto

lemma cleanup_hosts_result:
  "distinct order \<Longrightarrow>
   cleanup_hosts window clock order (hs, r, rm) =
     ((\<lambda>k. if k \<in> set order
           then map_option (\<lambda>hh. snd (HostHistory_Cleanup window (clock k) hh)) (hs k)
           else hs k),
      r + (\<Sum>k\<leftarrow>order. case hs k of None \<Rightarrow> 0
                             | Some hh \<Rightarrow> fst (HostHistory_Cleanup window (clock k) hh)),
      rm @ filter (\<lambda>k. case hs k of None \<Rightarrow> False
                        | Some hh \<Rightarrow> entries (snd (HostHistory_Cleanup window (clock k) hh)) = [])
             order)"
proof (induction order arbitrary: hs r rm)
  case Nil
  then show ?case by simp
next
  case (Cons host rest)
  then have d: "distinct rest" and nin: "host \<notin> set rest" by simp_all
  show ?case
  proof (cases "hs host")
    case None
    then show ?thesis using Cons.IH [OF d, of hs r rm] nin
      by (auto simp: fun_eq_iff)
  next
    case (Some hh)
    obtain removed hh' where c: "HostHistory_Cleanup window (clock host) hh = (removed, hh')"
      by (cases "HostHistory_Cleanup window (clock host) hh")
    let ?hs = "hs(host \<mapsto> hh')"
    have same: "\<And>k. k \<in> set rest \<Longrightarrow> ?hs k = hs k" using nin by auto
    have s1: "(\<Sum>k\<leftarrow>rest. case ?hs k of None \<Rightarrow> 0
                 | Some hh \<Rightarrow> fst (HostHistory_Cleanup window (clock k) hh))
            = (\<Sum>k\<leftarrow>rest. case hs k of None \<Rightarrow> 0
                 | Some hh \<Rightarrow> fst (HostHistory_Cleanup window (clock k) hh))"
      by (rule arg_cong [where f = sum_list], rule map_cong) (use nin in auto)
    have s2: "filter (\<lambda>k. case ?hs k of None \<Rightarrow> False
                 | Some hh \<Rightarrow> entries (snd (HostHistory_Cleanup window (clock k) hh)) = []) rest
            = filter (\<lambda>k. case hs k of None \<Rightarrow> False
                 | Some hh \<Rightarrow> entries (snd (HostHistory_Cleanup window (clock k) hh)) = []) rest"
      by (rule filter_cong) (use nin in auto)
    let ?rm = "if HostHistory_Len hh' = 0 then rm @ [host] else rm"
    have step: "cleanup_hosts window clock (host # rest) (hs, r, rm) =
                cleanup_hosts window clock rest (?hs, r + removed, ?rm)"
      using Some c by simp
    have A: "(\<lambda>k. if k \<in> set rest
                 then map_option (\<lambda>hh. snd (HostHistory_Cleanup window (clock k) hh)) (?hs k)
                 else ?hs k)
           = (\<lambda>k. if k \<in> set (host # rest)
                 then map_option (\<lambda>hh. snd (HostHistory_Cleanup window (clock k) hh)) (hs k)
                 else hs k)"
      using nin Some c by (auto simp: fun_eq_iff)
    have B: "r + removed + (\<Sum>k\<leftarrow>rest. case ?hs k of None \<Rightarrow> 0
                 | Some hh \<Rightarrow> fst (HostHistory_Cleanup window (clock k) hh))
           = r + (\<Sum>k\<leftarrow>host # rest. case hs k of None \<Rightarrow> 0
                 | Some hh \<Rightarrow> fst (HostHistory_Cleanup window (clock k) hh))"
      unfolding s1 using Some c by simp
    have C: "?rm @ filter (\<lambda>k. case ?hs k of None \<Rightarrow> False
                 | Some hh \<Rightarrow> entries (snd (HostHistory_Cleanup window (clock k) hh)) = []) rest
           = rm @ filter (\<lambda>k. case hs k of None \<Rightarrow> False
                 | Some hh \<Rightarrow> entries (snd (HostHistory_Cleanup window (clock k) hh)) = [])
               (host # rest)"
      unfolding s2 using Some c by (simp add: HostHistory_Len_def)
    show ?thesis
      unfolding step Cons.IH [OF d] A B C ..
  qed
qed

lemma History_Cleanup_hosts:
  assumes "distinct order" and "set order = dom (hosts h)"
  shows "hosts (snd (History_Cleanup window clock order h)) host =
           (case hosts h host of
              None \<Rightarrow> None
            | Some hh \<Rightarrow>
                (let kept = filter (\<lambda>e. Time_Add (clock host) (- window) < Timestamp e)
                              (entries hh)
                 in if kept = [] then None else Some (hh\<lparr>entries := kept\<rparr>)))"
proof (cases "hosts h host")
  case None
  then have "host \<notin> set order" using assms(2) by auto
  then show ?thesis using None
    by (simp add: History_Cleanup_def cleanup_hosts_result [OF assms(1)] fold_delete)
next
  case (Some hh)
  then have "host \<in> set order" using assms(2) by auto
  then show ?thesis using Some
    by (simp add: History_Cleanup_def cleanup_hosts_result [OF assms(1)] fold_delete
        HostHistory_Cleanup_def Let_def)
qed

lemma History_Cleanup_counters:
  "maxTotalEntries (snd (History_Cleanup window clock order h)) = maxTotalEntries h \<and>
   totalEntries (snd (History_Cleanup window clock order h)) = totalEntries h"
  by (simp add: History_Cleanup_def split_beta)

text \<open>
  C6 (as the code has it). \<open>Cleanup window\<close> keeps, in each host and in their order, exactly
  the entries whose timestamp is strictly later than the cutoff: it removes every entry
  whose timestamp is earlier than or equal to the cutoff. The cutoff is the clock reading
  taken for that host minus \<open>window\<close>, for every \<open>window\<close> but the least duration, which
  its negation leaves as it is: there the cutoff is the clock reading minus \<open>2 ^ 63\<close>
  nanoseconds. \<open>Cleanup\<close> then deletes exactly the hosts whose history is empty after the
  purge, and it leaves the entry counter and the cap as they were.
\<close>

theorem History_Cleanup_purges:
  assumes "distinct order" and "set order = dom (hosts h)"
  shows "hosts (snd (History_Cleanup window clock order h)) host =
           (case hosts h host of
              None \<Rightarrow> None
            | Some hh \<Rightarrow>
                (let cutoff = (if window = - (2 ^ 63) then clock host - 2 ^ 63
                               else clock host - sint window);
                     kept = filter (\<lambda>e. cutoff < Timestamp e) (entries hh)
                 in if kept = [] then None else Some (hh\<lparr>entries := kept\<rparr>))) \<and>
         maxTotalEntries (snd (History_Cleanup window clock order h)) = maxTotalEntries h \<and>
         totalEntries (snd (History_Cleanup window clock order h)) = totalEntries h"
proof -
  have e: "(if window = - (2 ^ 63) then clock host - 2 ^ 63 else clock host - sint window) =
           Time_Add (clock host) (- window)"
    by (simp only: Time_Add_neg)
  have k: "hosts (snd (History_Cleanup window clock order h)) host =
           (case hosts h host of
              None \<Rightarrow> None
            | Some hh \<Rightarrow>
                (let cutoff = Time_Add (clock host) (- window);
                     kept = filter (\<lambda>e. cutoff < Timestamp e) (entries hh)
                 in if kept = [] then None else Some (hh\<lparr>entries := kept\<rparr>)))"
    unfolding History_Cleanup_hosts [OF assms, of window clock host] by (simp only: Let_def)
  show ?thesis
    unfolding e using k History_Cleanup_counters [of window clock order h] by (rule conjI)
qed

theorem History_Cleanup_purges_witness:
  "distinct [''example.com''] \<and>
   set [''example.com''] =
     dom (hosts (History_Record ''example.com'' ''10.0.0.2'' 9
            [''example.com'']
            (History_Record ''example.com'' ''10.0.0.1'' 3 [] (NewHistory 0)))) \<and>
   hosts (snd (History_Cleanup 5 (\<lambda>host. 10) [''example.com'']
       (History_Record ''example.com'' ''10.0.0.2'' 9 [''example.com'']
         (History_Record ''example.com'' ''10.0.0.1'' 3 [] (NewHistory 0))))) ''example.com'' =
     Some \<lparr>entries = [\<lparr>IP = ''10.0.0.2'', Timestamp = 9\<rparr>]\<rparr>"
proof -
  have h: "History_Record ''example.com'' ''10.0.0.2'' 9 [''example.com'']
             (History_Record ''example.com'' ''10.0.0.1'' 3 [] (NewHistory 0)) =
           \<lparr>hosts = [''example.com'' \<mapsto>
              \<lparr>entries = [\<lparr>IP = ''10.0.0.1'', Timestamp = 3\<rparr>, \<lparr>IP = ''10.0.0.2'', Timestamp = 9\<rparr>]\<rparr>],
            maxTotalEntries = 0, totalEntries = 0\<rparr>"
    by (simp add: History_Record_def NewHistory_def GetOrCreate_def HostHistory_Add_def
        NewHostHistory_def Let_def)
  have d: "distinct [''example.com'']" by simp
  have s: "set [''example.com''] = dom (hosts \<lparr>hosts = [''example.com'' \<mapsto>
              \<lparr>entries = [\<lparr>IP = ''10.0.0.1'', Timestamp = 3\<rparr>, \<lparr>IP = ''10.0.0.2'', Timestamp = 9\<rparr>]\<rparr>],
            maxTotalEntries = 0, totalEntries = 0\<rparr>)"
    by simp
  show ?thesis
    using History_Cleanup_purges [OF d s, of 5 "\<lambda>host. 10" "''example.com''"] s
    by (simp add: h Let_def)
qed

text \<open>
  The claim as stated keeps an entry whose timestamp equals the cutoff. The code removes
  it: with \<open>window = 5\<close> and the clock at \<open>10\<close>, the only entry of the host has timestamp
  \<open>10 - 5\<close>, and after \<open>Cleanup\<close> the host is gone.
\<close>

theorem Cleanup_removes_entry_at_cutoff:
  "Timestamp (hd (entries (the (hosts
      (History_Record ''example.com'' ''10.0.0.1'' 5 [] (NewHistory 0)) ''example.com'')))) = 10 - 5 \<and>
   hosts (snd (History_Cleanup 5 (\<lambda>host. 10) [''example.com'']
      (History_Record ''example.com'' ''10.0.0.1'' 5 [] (NewHistory 0)))) ''example.com'' = None"
  by (simp add: History_Cleanup_def History_Record_def NewHistory_def GetOrCreate_def
      HostHistory_Add_def NewHostHistory_def HostHistory_Cleanup_def HostHistory_Len_def
      Time_Add_def Let_def)

text \<open>
  At the least duration the negation wraps, the cutoff lies \<open>2 ^ 63\<close> nanoseconds before
  the clock reading, and an entry recorded before the clock reading is kept.
\<close>

lemma Cleanup_at_least_duration:
  "hosts (snd (History_Cleanup (- (2 ^ 63)) (\<lambda>host. 10) [''example.com'']
      (History_Record ''example.com'' ''10.0.0.1'' 5 [] (NewHistory 0)))) ''example.com'' =
     Some \<lparr>entries = [\<lparr>IP = ''10.0.0.1'', Timestamp = 5\<rparr>]\<rparr>"
  by (simp add: History_Cleanup_def History_Record_def NewHistory_def GetOrCreate_def
      HostHistory_Add_def NewHostHistory_def HostHistory_Cleanup_def HostHistory_Len_def
      Time_Add_def Let_def)

text \<open>Counting the stored entries.\<close>

lemma stored_entries_alt: "stored_entries h = sum (host_len (hosts h)) (dom (hosts h))"
  by (simp add: stored_entries_def host_len_def)

lemma sum_split_key:
  assumes "finite (dom m)"
  shows "sum (host_len m) (dom m) = host_len m k + sum (host_len m) (dom m - {k})"
proof (cases "k \<in> dom m")
  case True
  then show ?thesis using assms by (simp add: sum.remove)
next
  case False
  then have n: "m k = None" by (simp add: domIff)
  have "dom m - {k} = dom m" using False by simp
  moreover have "host_len m k = 0" using n by (simp add: host_len_def)
  ultimately show ?thesis by simp
qed

lemma stored_entries_update:
  assumes "finite (dom (hosts h))"
  shows "stored_entries (h\<lparr>hosts := (hosts h)(k \<mapsto> hh')\<rparr>) + host_len (hosts h) k
           = stored_entries h + length (entries hh')"
proof -
  let ?m = "hosts h" and ?m' = "(hosts h)(k \<mapsto> hh')"
  have f': "finite (dom ?m')" using assms by simp
  have "sum (host_len ?m') (dom ?m') = host_len ?m' k + sum (host_len ?m') (dom ?m' - {k})"
    by (rule sum_split_key [OF f'])
  moreover have "dom ?m' - {k} = dom ?m - {k}" by auto
  moreover have "sum (host_len ?m') (dom ?m - {k}) = sum (host_len ?m) (dom ?m - {k})"
    by (rule sum.cong) (auto simp: host_len_def)
  moreover have "host_len ?m' k = length (entries hh')" by (simp add: host_len_def)
  ultimately show ?thesis
    using sum_split_key [OF assms, of k] by (simp add: stored_entries_alt)
qed

lemma stored_entries_delete:
  assumes "finite (dom (hosts h))"
  shows "stored_entries (h\<lparr>hosts := (hosts h)(k := None)\<rparr>) + host_len (hosts h) k = stored_entries h"
proof -
  let ?m = "hosts h" and ?m' = "(hosts h)(k := None)"
  have "dom ?m' = dom ?m - {k}" by auto
  moreover have "sum (host_len ?m') (dom ?m - {k}) = sum (host_len ?m) (dom ?m - {k})"
    by (rule sum.cong) (auto simp: host_len_def)
  ultimately show ?thesis
    using sum_split_key [OF assms, of k] by (simp add: stored_entries_alt)
qed

lemma stored_entries_counters [simp]:
  "stored_entries (h\<lparr>totalEntries := t\<rparr>) = stored_entries h"
  by (simp add: stored_entries_def)

lemma Stats_stored_entries:
  assumes "distinct order" and "set order = dom (hosts h)"
  shows "fst (snd (Stats order h)) = int (stored_entries h)"
proof -
  have "length (concat (map (\<lambda>host. case hosts h host of None \<Rightarrow> [] | Some hh \<Rightarrow> entries hh) order))
        = sum_list (map (host_len (hosts h)) order)"
    by (induction order) (auto simp: host_len_def split: option.splits)
  also have "\<dots> = sum (host_len (hosts h)) (set order)"
    by (rule sum_list_distinct_conv_sum_set [OF assms(1)])
  finally show ?thesis using assms(2) by (simp add: Stats_def stored_entries_alt)
qed


lemma find_oldest_host:
  assumes "\<forall>k \<in> set order. \<exists>hh. hs k = Some hh \<and> entries hh \<noteq> []"
  shows "fst (find_oldest hs order (oh, ot, f)) \<in> insert oh (set order) \<and>
         (f \<and> order \<noteq> [] \<longrightarrow> fst (find_oldest hs order (oh, ot, f)) \<in> set order)"
  using assms
proof (induction order arbitrary: oh ot f)
  case Nil
  then show ?case by simp
next
  case (Cons host rest)
  then obtain hh e later where hh: "hs host = Some hh" "entries hh = e # later"
    by (cases "hs host"; cases "entries (the (hs host))") auto
  have r: "\<forall>k \<in> set rest. \<exists>hh. hs k = Some hh \<and> entries hh \<noteq> []" using Cons.prems by simp
  show ?case
  proof (cases "f \<or> Timestamp e < ot")
    case True
    then have eq: "find_oldest hs (host # rest) (oh, ot, f) = find_oldest hs rest (host, Timestamp e, False)"
      using hh by simp
    show ?thesis unfolding eq using Cons.IH [OF r, of host "Timestamp e" False] by auto
  next
    case False
    then have eq: "find_oldest hs (host # rest) (oh, ot, f) = find_oldest hs rest (oh, ot, f)"
      using hh by simp
    show ?thesis unfolding eq using Cons.IH [OF r, of oh ot f] False by auto
  qed
qed

lemma evictOldestLocked_empty: "evictOldestLocked [] h = h"
  by (simp add: evictOldestLocked_def)

lemma evictOldestLocked_named:
  assumes "history_inv h" and "set order = dom (hosts h)" and "order \<noteq> []"
  shows "stored_entries (evictOldestLocked order h) + 1 = stored_entries h \<and>
         totalEntries (evictOldestLocked order h) = totalEntries h - 1 \<and>
         maxTotalEntries (evictOldestLocked order h) = maxTotalEntries h \<and>
         finite (dom (hosts (evictOldestLocked order h))) \<and>
         [] \<notin> dom (hosts (evictOldestLocked order h)) \<and>
         (\<forall>k hh. hosts (evictOldestLocked order h) k = Some hh \<longrightarrow> entries hh \<noteq> [])"
proof -
  have fin: "finite (dom (hosts h))" and named: "[] \<notin> dom (hosts h)"
    and ne: "\<And>k hh. hosts h k = Some hh \<Longrightarrow> entries hh \<noteq> []"
    using assms(1) by (auto simp: history_inv_def)
  have all: "\<forall>k \<in> set order. \<exists>hh. hosts h k = Some hh \<and> entries hh \<noteq> []"
    using assms(2) ne by auto
  obtain oh ot f where fo: "find_oldest (hosts h) order ([], 0, True) = (oh, ot, f)"
    by (cases "find_oldest (hosts h) order ([], 0, True)")
  have "oh \<in> set order" using find_oldest_host [OF all, of "[]" 0 True] assms(3) fo by simp
  then have ohd: "oh \<in> dom (hosts h)" using assms(2) by simp
  then have ohn: "oh \<noteq> []" using named by auto
  obtain hh where hh: "hosts h oh = Some hh" using ohd by auto
  obtain e later where es: "entries hh = e # later" using ne [OF hh] by (cases "entries hh") auto
  have len: "host_len (hosts h) oh = Suc (length later)" using hh es by (simp add: host_len_def)
  show ?thesis
  proof (cases "later = []")
    case True
    have ev: "evictOldestLocked order h = h\<lparr>hosts := (hosts h)(oh := None), totalEntries := totalEntries h - 1\<rparr>"
      using fo ohn hh es True by (simp add: evictOldestLocked_def)
    have "stored_entries (h\<lparr>hosts := (hosts h)(oh := None)\<rparr>) + host_len (hosts h) oh = stored_entries h"
      by (rule stored_entries_delete [OF fin])
    then have "stored_entries (evictOldestLocked order h) + 1 = stored_entries h"
      using len True by (simp add: ev stored_entries_def)
    then show ?thesis using fin named ne ohn by (auto simp: ev split: if_splits)
  next
    case False
    have ev: "evictOldestLocked order h =
        h\<lparr>hosts := (hosts h)(oh \<mapsto> hh\<lparr>entries := later\<rparr>), totalEntries := totalEntries h - 1\<rparr>"
      using fo ohn hh es False by (simp add: evictOldestLocked_def)
    have "stored_entries (h\<lparr>hosts := (hosts h)(oh \<mapsto> hh\<lparr>entries := later\<rparr>)\<rparr>) + host_len (hosts h) oh
            = stored_entries h + length (entries (hh\<lparr>entries := later\<rparr>))"
      by (rule stored_entries_update [OF fin])
    then have "stored_entries (evictOldestLocked order h) + 1 = stored_entries h"
      using len by (simp add: ev stored_entries_def)
    then show ?thesis using fin named ne False ohn by (auto simp: ev split: if_splits)
  qed
qed

lemma History_Record_eq:
  "History_Record host ip now order h =
     (let h1 = (if maxTotalEntries h > 0
                then (let h' = (if totalEntries h \<ge> maxTotalEntries h
                                then evictOldestLocked order h else h)
                      in h'\<lparr>totalEntries := totalEntries h' + 1\<rparr>)
                else h)
      in h1\<lparr>hosts := (hosts h1)(host \<mapsto> HostHistory_Add ip now
            (case hosts h1 host of None \<Rightarrow> NewHostHistory | Some hh \<Rightarrow> hh))\<rparr>)"
  by (simp add: History_Record_def GetOrCreate_def Let_def split: option.splits)

lemma history_inv_Record:
  assumes "history_inv h" and "host \<noteq> []" and "set order = dom (hosts h)"
  shows "history_inv (History_Record host ip now order h)"
proof -
  have fin: "finite (dom (hosts h))" and named: "[] \<notin> dom (hosts h)"
    and ne: "\<And>k hh. hosts h k = Some hh \<Longrightarrow> entries hh \<noteq> []"
    and st: "int (stored_entries h) \<le> totalEntries h"
    and sm: "int (stored_entries h) \<le> maxTotalEntries h" and mp: "0 < maxTotalEntries h"
    using assms(1) by (auto simp: history_inv_def)
  define h1 where "h1 = (let h' = (if totalEntries h \<ge> maxTotalEntries h
                                then evictOldestLocked order h else h)
                      in h'\<lparr>totalEntries := totalEntries h' + 1\<rparr>)"
  have p: "finite (dom (hosts h1)) \<and> [] \<notin> dom (hosts h1) \<and>
           (\<forall>k hh. hosts h1 k = Some hh \<longrightarrow> entries hh \<noteq> []) \<and>
           maxTotalEntries h1 = maxTotalEntries h \<and>
           int (stored_entries h1) + 1 \<le> totalEntries h1 \<and>
           int (stored_entries h1) + 1 \<le> maxTotalEntries h1"
  proof (cases "totalEntries h \<ge> maxTotalEntries h")
    case full: True
    show ?thesis
    proof (cases "order = []")
      case True
      then have "dom (hosts h) = {}" using assms(3) by simp
      then have "stored_entries h = 0" by (simp add: stored_entries_def)
      then show ?thesis using full True fin named ne mp
        by (simp add: h1_def evictOldestLocked_empty)
    next
      case False
      note e = evictOldestLocked_named [OF assms(1) assms(3) False]
      have "h1 = (evictOldestLocked order h)\<lparr>totalEntries := totalEntries (evictOldestLocked order h) + 1\<rparr>"
        using full by (simp add: h1_def Let_def)
      then show ?thesis using e st sm by simp
    qed
  next
    case False
    then have "h1 = h\<lparr>totalEntries := totalEntries h + 1\<rparr>" by (simp add: h1_def)
    then show ?thesis using False fin named ne st by simp
  qed
  define old where "old = (case hosts h1 host of None \<Rightarrow> NewHostHistory | Some hh \<Rightarrow> hh)"
  define hh' where "hh' = HostHistory_Add ip now old"
  have r: "History_Record host ip now order h = h1\<lparr>hosts := (hosts h1)(host \<mapsto> hh')\<rparr>"
    using mp by (simp add: History_Record_eq h1_def old_def hh'_def Let_def)
  have "stored_entries (h1\<lparr>hosts := (hosts h1)(host \<mapsto> hh')\<rparr>) + host_len (hosts h1) host
          = stored_entries h1 + length (entries hh')"
    using p by (intro stored_entries_update) simp
  moreover have "host_len (hosts h1) host = length (entries old)"
    by (simp add: host_len_def old_def NewHostHistory_def split: option.splits)
  ultimately have s: "stored_entries (History_Record host ip now order h) = stored_entries h1 + 1"
    by (simp add: r hh'_def HostHistory_Add_def)
  show ?thesis
    unfolding history_inv_def
    using p s assms(2) mp by (auto simp: r hh'_def HostHistory_Add_def)
qed

lemma history_inv_Cleanup:
  assumes "history_inv h" and "distinct order" and "set order = dom (hosts h)"
  shows "history_inv (snd (History_Cleanup window clock order h))"
proof -
  let ?h' = "snd (History_Cleanup window clock order h)"
  note hs = History_Cleanup_hosts [OF assms(2,3), of window clock]
  have fin: "finite (dom (hosts h))" and named: "[] \<notin> dom (hosts h)"
    and st: "int (stored_entries h) \<le> totalEntries h"
    and sm: "int (stored_entries h) \<le> maxTotalEntries h" and mp: "0 < maxTotalEntries h"
    using assms(1) by (auto simp: history_inv_def)
  have sub: "dom (hosts ?h') \<subseteq> dom (hosts h)"
  proof
    fix k assume "k \<in> dom (hosts ?h')"
    then show "k \<in> dom (hosts h)" using hs [of k] by (cases "hosts h k") auto
  qed
  have le: "host_len (hosts ?h') k \<le> host_len (hosts h) k" for k
    using hs [of k] by (cases "hosts h k") (auto simp: host_len_def Let_def)
  have "sum (host_len (hosts ?h')) (dom (hosts ?h')) \<le> sum (host_len (hosts h)) (dom (hosts ?h'))"
    by (rule sum_mono) (rule le)
  also have "\<dots> \<le> sum (host_len (hosts h)) (dom (hosts h))"
    by (rule sum_mono2 [OF fin sub]) simp
  finally have s: "stored_entries ?h' \<le> stored_entries h" by (simp add: stored_entries_alt)
  have ne': "entries hh \<noteq> []" if "hosts ?h' k = Some hh" for k hh
    using that hs [of k] by (cases "hosts h k") (auto simp: Let_def split: if_splits)
  have fin': "finite (dom (hosts ?h'))" by (rule finite_subset [OF sub fin])
  have named': "[] \<notin> dom (hosts ?h')" using sub named by auto
  show ?thesis
    unfolding history_inv_def
    using fin' named' ne' s st sm mp History_Cleanup_counters [of window clock order h]
    by auto
qed

lemma history_inv_run:
  assumes "history_inv h" and "ranges_over_map ops h" and "\<forall>opn \<in> set ops. host_named opn"
  shows "history_inv (fold history_step ops h) \<and>
         maxTotalEntries (fold history_step ops h) = maxTotalEntries h"
  using assms
proof (induction ops arbitrary: h)
  case Nil
  then show ?case by simp
next
  case (Cons opn ops)
  have i: "history_inv (history_step opn h) \<and> maxTotalEntries (history_step opn h) = maxTotalEntries h"
  proof (cases opn)
    case (OpRecord host ip now order)
    then show ?thesis
      using Cons.prems history_inv_Record [of h host order ip now]
      by (simp add: History_Record_eq Let_def evictOldestLocked_def split_beta split: option.splits)
  next
    case (OpCleanup window clock order)
    then show ?thesis
      using Cons.prems history_inv_Cleanup [of h order window clock]
        History_Cleanup_counters [of window clock order h]
      by simp
  qed
  show ?case using Cons.IH [of "history_step opn h"] i Cons.prems by simp
qed

text \<open>
  The cap holds in every run that records named hosts only. The cap is a Go \<open>int\<close>, and
  the run has fewer than \<open>2 ^ 63\<close> calls, so that the counter \<open>totalEntries\<close>, which no
  call raises by more than one, stays a Go \<open>int\<close>.
\<close>

lemma stored_entries_bounded:
  assumes "0 < C" and "C < 2 ^ 63" and "int (length ops) < 2 ^ 63"
    and "ranges_over_map ops (NewHistory C)" and "\<forall>opn \<in> set ops. host_named opn"
  shows "int (stored_entries (fold history_step ops (NewHistory C))) \<le> C"
proof -
  have "history_inv (NewHistory C)"
    using assms(1) by (simp add: history_inv_def NewHistory_def stored_entries_def)
  from history_inv_run [OF this assms(4,5)] show ?thesis
    by (simp add: history_inv_def NewHistory_def)
qed

text \<open>
  C5 at the input where the code leaves the claim. With a cap of one entry, two records for
  the host with the empty name leave two stored entries: \<open>evictOldestLocked\<close> reads the
  empty string in \<open>oldestHost\<close> as "no host found" and evicts nothing. The same two
  records for a host with a name leave one entry, and \<open>stored_entries_bounded\<close> above gives
  the cap for every run of fewer than \<open>2 ^ 63\<close> calls that records named hosts only.
\<close>

theorem Record_empty_host_exceeds_cap:
  "maxTotalEntries (History_Record [] ''10.0.0.1'' 2 [[]]
       (History_Record [] ''10.0.0.1'' 1 [] (NewHistory 1))) = 1 \<and>
   fst (snd (Stats [[]]
     (History_Record [] ''10.0.0.1'' 2 [[]]
       (History_Record [] ''10.0.0.1'' 1 [] (NewHistory 1))))) = 2 \<and>
   fst (snd (Stats [''a.com'']
     (History_Record ''a.com'' ''10.0.0.1'' 2 [''a.com'']
       (History_Record ''a.com'' ''10.0.0.1'' 1 [] (NewHistory 1))))) = 1"
  by (simp add: Stats_def History_Record_def NewHistory_def GetOrCreate_def
      HostHistory_Add_def NewHostHistory_def evictOldestLocked_def Let_def)

subsection \<open>The selector\<close>

lemma getAvailableIPs_candidates: "getAvailableIPs l = candidate_ips l"
  by (cases "limiter l"; cases "healthChecker l")
     (simp_all add: getAvailableIPs_def candidate_ips_def GetAvailableIPs_def GetHealthyIPs_def
       HealthChecker_IsHealthy_def Let_def)





lemma pick_ip_cold:
  "cands \<noteq> [] \<Longrightarrow> 0 \<le> m \<Longrightarrow> (m = 0 \<longrightarrow> old = 0) \<Longrightarrow>
   fst (pick_ip Map.empty Map.empty cands (sel, m, old)) = last cands"
proof (induction cands arbitrary: sel m old)
  case Nil
  then show ?case by simp
next
  case (Cons ip rest)
  show ?case
  proof (cases rest)
    case Nil
    then show ?thesis using Cons.prems by (auto simp: IsZero_def)
  next
    case (Cons a list)
    then have ne: "rest \<noteq> []" by simp
    show ?thesis
      using Cons.IH [OF ne, of 0 0 ip] Cons.prems ne
      by (auto simp: IsZero_def)
  qed
qed


lemma Select_cold_start_last:
  assumes "History_GetFiltered host (historyWindow l) (historySize l) now (history l) = Inr []"
    and "getAvailableIPs l \<noteq> []"
  shows "Select host now l = Inr (last (getAvailableIPs l))"
proof -
  have "fst (pick_ip Map.empty Map.empty (getAvailableIPs l) ([], MaxInt, 0)) = last (getAvailableIPs l)"
    by (rule pick_ip_cold [OF assms(2)]) (simp_all add: MaxInt_def)
  then show ?thesis using assms
    by (simp add: Select_def Let_def split_beta)
qed

text \<open>
  C3 at the input where the code leaves the claim. Three configured IPs, all available, and
  no history for the host: every usage count is zero and every last use is the zero time.
  \<open>Select\<close> returns the last candidate, not the first: on equal usage the test
  \<open>lastUse.IsZero() || lastUse.Before(oldestUse)\<close> holds for every never-used IP, so each
  later candidate replaces the one selected before it (lemma \<open>Select_cold_start_last\<close>).
\<close>

theorem Select_cold_start_returns_last:
  "Select ''example.com'' 1000
     \<lparr>ips = [''192.168.1.1'', ''192.168.1.2'', ''192.168.1.3''],
      historyWindow = 300000000000, historySize = 100,
      limiter = Some (New 100 1000 [''192.168.1.1'', ''192.168.1.2'', ''192.168.1.3'']),
      healthChecker = None, history = NewHistory 0\<rparr>
   = Inr ''192.168.1.3''"
proof -
  let ?l = "\<lparr>ips = [''192.168.1.1'', ''192.168.1.2'', ''192.168.1.3''],
      historyWindow = 300000000000, historySize = 100,
      limiter = Some (New 100 1000 [''192.168.1.1'', ''192.168.1.2'', ''192.168.1.3'']),
      healthChecker = None, history = NewHistory 0\<rparr>"
  have a: "getAvailableIPs ?l = [''192.168.1.1'', ''192.168.1.2'', ''192.168.1.3'']"
    by (simp add: getAvailableIPs_def GetAvailableIPs_def IsIPAvailable_def New_def word_sless_alt)
  have h: "History_GetFiltered ''example.com'' (historyWindow ?l) (historySize ?l) 1000 (history ?l) = Inr []"
    by (simp add: History_GetFiltered_def NewHistory_def)
  show ?thesis using Select_cold_start_last [OF h] a by simp
qed

text \<open>
  When the host has history and the history size is one that \<open>make\<close> refuses, \<open>Select\<close>
  panics, whatever the candidates are.
\<close>

lemma Select_panics_in_make:
  assumes "candidate_ips l \<noteq> []" and "hosts (history l) host = Some hh"
    and "historySize l < 0 \<or> maxAlloc < Entry_Size * historySize l"
  shows "Select host now l = Inl (GoPanic PanicMakesliceCap)"
  using assms
  by (simp add: Select_def Let_def getAvailableIPs_candidates History_GetFiltered_def
      HostHistory_GetFiltered_def makeslice_panics_def)



subsection \<open>The client IP\<close>

lemma Index_char:
  "Index s [c] = (if c \<in> set s then int (length (takeWhile (\<lambda>x. x \<noteq> c) s)) else - 1)"
  by (induction s) (auto simp: HasPrefix_def Let_def)

lemma Cut_char:
  "Cut s [c] = (if c \<in> set s then (takeWhile (\<lambda>x. x \<noteq> c) s, tl (dropWhile (\<lambda>x. x \<noteq> c) s), True)
                else (s, [], False))"
proof (cases "c \<in> set s")
  case True
  have d: "drop (Suc (length (takeWhile (\<lambda>x. x \<noteq> c) s))) s = tl (dropWhile (\<lambda>x. x \<noteq> c) s)"
    by (metis drop_Suc tl_drop dropWhile_eq_drop)
  have t: "take (length (takeWhile (\<lambda>x. x \<noteq> c) s)) s = takeWhile (\<lambda>x. x \<noteq> c) s"
    by (rule takeWhile_eq_take [symmetric])
  show ?thesis using True
    by (simp add: Cut_def Index_char Let_def t d)
next
  case False
  then show ?thesis by (simp add: Cut_def Index_char)
qed

lemma LastIndex_range: "- 1 \<le> LastIndex s sub \<and> LastIndex s sub \<le> int (length s)"
  by (induction s) (auto simp: Let_def)

lemma LastIndex_none:
  "(LastIndex s sub = - 1) = (\<not> (\<exists>u v. s = u @ sub @ v))"
proof (induction s)
  case Nil
  then show ?case by auto
next
  case (Cons c cs)
  have r: "- 1 \<le> LastIndex cs sub" using LastIndex_range [of cs sub] by simp
  have pre: "HasPrefix (c # cs) sub \<longleftrightarrow> (\<exists>v. c # cs = sub @ v)"
    by (metis HasPrefix_def append_eq_conv_conj)
  have split: "(\<exists>u v. c # cs = u @ sub @ v) \<longleftrightarrow> (\<exists>v. c # cs = sub @ v) \<or> (\<exists>u v. cs = u @ sub @ v)"
  proof
    assume "\<exists>u v. c # cs = u @ sub @ v"
    then obtain u v where uv: "c # cs = u @ sub @ v" by blast
    show "(\<exists>v. c # cs = sub @ v) \<or> (\<exists>u v. cs = u @ sub @ v)"
    proof (cases u)
      case Nil
      then show ?thesis using uv by auto
    next
      case (Cons a u')
      then show ?thesis using uv by auto
    qed
  next
    assume "(\<exists>v. c # cs = sub @ v) \<or> (\<exists>u v. cs = u @ sub @ v)"
    then show "\<exists>u v. c # cs = u @ sub @ v"
    proof
      assume "\<exists>v. c # cs = sub @ v"
      then show ?thesis by (metis append_Nil)
    next
      assume "\<exists>u v. cs = u @ sub @ v"
      then obtain u v where "cs = u @ sub @ v" by blast
      then have "c # cs = (c # u) @ sub @ v" by simp
      then show ?thesis by blast
    qed
  qed
  show ?case using Cons.IH r pre split by (auto simp: Let_def)
qed

lemma LastIndex_append:
  "0 \<le> LastIndex s sub \<Longrightarrow> LastIndex (u @ s) sub = int (length u) + LastIndex s sub"
  by (induction u) (auto simp: Let_def)

lemma LastIndex_bracket_colon:
  assumes "\<not> (\<exists>u v. p = u @ '']:'' @ v)"
  shows "LastIndex (''['' @ h @ '']:'' @ p) '']:'' = 1 + int (length h)"
proof -
  have "LastIndex p '']:'' = - 1" using assms by (simp add: LastIndex_none)
  then have "LastIndex ('']:'' @ p) '']:'' = 0" by (simp add: HasPrefix_def Let_def)
  then have "LastIndex ((''['' @ h) @ ('']:'' @ p)) '']:'' = int (length (''['' @ h)) + 0"
    using LastIndex_append [of "'']:'' @ p" "'']:''" "''['' @ h"] by simp
  then show ?thesis by simp
qed


lemma LastIndex_after_bracket:
  "HasPrefix s ''['' \<Longrightarrow> LastIndex s '']:'' \<noteq> 0"
  by (cases s) (auto simp: HasPrefix_def Let_def)

text \<open>
  C4 (as the code has it). For a remote address that begins with \<open>[\<close> and contains \<open>]:\<close>,
  \<open>getClientIP\<close> returns what stands between the leading bracket and the last \<open>]:\<close> (the
  slice is always within bounds); for one that begins with \<open>[\<close> and has no \<open>]:\<close> it
  returns the whole string. For any other address it returns what stands before the
  first colon, and the whole string when there is no colon.
\<close>

theorem getClientIP_cases:
  "(RemoteAddr r = ''['' @ h @ '']:'' @ p \<and> \<not> (\<exists>u v. p = u @ '']:'' @ v) \<longrightarrow> getClientIP r = h) \<and>
   (HasPrefix (RemoteAddr r) ''['' \<and> \<not> (\<exists>u v. RemoteAddr r = u @ '']:'' @ v) \<longrightarrow>
      getClientIP r = RemoteAddr r) \<and>
   (HasPrefix (RemoteAddr r) ''['' \<and> LastIndex (RemoteAddr r) '']:'' \<noteq> - 1 \<longrightarrow>
      1 \<le> LastIndex (RemoteAddr r) '']:'' \<and>
      LastIndex (RemoteAddr r) '']:'' \<le> int (length (RemoteAddr r))) \<and>
   (\<not> HasPrefix (RemoteAddr r) ''['' \<and> CHR '':'' \<in> set (RemoteAddr r) \<longrightarrow>
      getClientIP r = takeWhile (\<lambda>c. c \<noteq> CHR '':'') (RemoteAddr r)) \<and>
   (\<not> HasPrefix (RemoteAddr r) ''['' \<and> CHR '':'' \<notin> set (RemoteAddr r) \<longrightarrow>
      getClientIP r = RemoteAddr r)"
proof (intro conjI impI)
  assume a: "RemoteAddr r = ''['' @ h @ '']:'' @ p \<and> \<not> (\<exists>u v. p = u @ '']:'' @ v)"
  then have i: "LastIndex (RemoteAddr r) '']:'' = 1 + int (length h)"
    using LastIndex_bracket_colon [of p h] by simp
  have "HasPrefix (RemoteAddr r) ''[''" using a by (simp add: HasPrefix_def)
  then show "getClientIP r = h" using a i
    by (simp add: getClientIP_def Let_def slice_def nat_add_distrib)
next
  assume "HasPrefix (RemoteAddr r) ''['' \<and> \<not> (\<exists>u v. RemoteAddr r = u @ '']:'' @ v)"
  then show "getClientIP r = RemoteAddr r"
    using LastIndex_none [of "RemoteAddr r" "'']:''"] by (simp add: getClientIP_def)
next
  assume a: "HasPrefix (RemoteAddr r) ''['' \<and> LastIndex (RemoteAddr r) '']:'' \<noteq> - 1"
  then show "1 \<le> LastIndex (RemoteAddr r) '']:''"
    using LastIndex_range [of "RemoteAddr r" "'']:''"] LastIndex_after_bracket [of "RemoteAddr r"]
    by linarith
  show "LastIndex (RemoteAddr r) '']:'' \<le> int (length (RemoteAddr r))"
    using LastIndex_range [of "RemoteAddr r" "'']:''"] by simp
next
  assume "\<not> HasPrefix (RemoteAddr r) ''['' \<and> CHR '':'' \<in> set (RemoteAddr r)"
  then show "getClientIP r = takeWhile (\<lambda>c. c \<noteq> CHR '':'') (RemoteAddr r)"
    by (simp add: getClientIP_def Cut_char)
next
  assume "\<not> HasPrefix (RemoteAddr r) ''['' \<and> CHR '':'' \<notin> set (RemoteAddr r)"
  then show "getClientIP r = RemoteAddr r"
    by (simp add: getClientIP_def Cut_char)
qed

theorem getClientIP_cases_witness:
  "getClientIP \<lparr>Header = Map.empty, RemoteAddr = ''[fe80::1%eth0]:9000''\<rparr> = ''fe80::1%eth0'' \<and>
   getClientIP \<lparr>Header = Map.empty, RemoteAddr = ''[::1]''\<rparr> = ''[::1]'' \<and>
   getClientIP \<lparr>Header = Map.empty, RemoteAddr = ''192.168.1.1:12345''\<rparr> = ''192.168.1.1'' \<and>
   getClientIP \<lparr>Header = Map.empty, RemoteAddr = ''192.168.1.1''\<rparr> = ''192.168.1.1''"
proof -
  have n1: "\<not> (\<exists>u v. ''9000'' = u @ '']:'' @ v)"
    using LastIndex_none [of "''9000''" "'']:''"] by (simp add: HasPrefix_def Let_def)
  have n2: "\<not> (\<exists>u v. ''[::1]'' = u @ '']:'' @ v)"
    using LastIndex_none [of "''[::1]''" "'']:''"] by (simp add: HasPrefix_def Let_def)
  show ?thesis
    using getClientIP_cases [of "\<lparr>Header = Map.empty, RemoteAddr = ''[fe80::1%eth0]:9000''\<rparr>"
            "''fe80::1%eth0''" "''9000''"]
          getClientIP_cases [of "\<lparr>Header = Map.empty, RemoteAddr = ''[::1]''\<rparr>" "[]" "[]"]
          getClientIP_cases [of "\<lparr>Header = Map.empty, RemoteAddr = ''192.168.1.1:12345''\<rparr>" "[]" "[]"]
          getClientIP_cases [of "\<lparr>Header = Map.empty, RemoteAddr = ''192.168.1.1''\<rparr>" "[]" "[]"]
          n1 n2
    by (simp add: HasPrefix_def)
qed

text \<open>
  The claim as stated cuts an unbracketed address at its last colon. The code cuts at the
  first one (\<open>strings.Cut\<close>): for the bare IPv6 literal \<open>2001:db8::1\<close> it returns \<open>2001\<close>,
  where the part before the last colon is \<open>2001:db8:\<close>.
\<close>

theorem getClientIP_cuts_at_first_colon:
  "getClientIP \<lparr>Header = Map.empty, RemoteAddr = ''2001:db8::1''\<rparr> = ''2001'' \<and>
   host_before_last_colon ''2001:db8::1'' = ''2001:db8:'' \<and>
   getClientIP \<lparr>Header = Map.empty, RemoteAddr = ''2001:db8::1''\<rparr>
     \<noteq> host_before_last_colon ''2001:db8::1''"
  by (simp add: getClientIP_def HasPrefix_def Cut_def Let_def host_before_last_colon_def)

subsection \<open>Proxy authentication: the 407 cases\<close>

lemma Index_colon_found: "(Index s '':'' < 0) = (CHR '':'' \<notin> set s)"
  by (simp add: Index_char)

lemma take_Index_colon:
  "CHR '':'' \<in> set s \<Longrightarrow> take (nat (Index s '':'')) s = takeWhile (\<lambda>c. c \<noteq> CHR '':'') s"
  by (simp add: Index_char takeWhile_eq_take [symmetric])

lemma drop_Index_colon:
  "CHR '':'' \<in> set s \<Longrightarrow> drop (nat (Index s '':'') + 1) s = tl (dropWhile (\<lambda>c. c \<noteq> CHR '':'') s)"
  by (simp add: Index_char) (metis drop_Suc tl_drop dropWhile_eq_drop)

lemma GetAuthCredentials_split:
  "CHR '':'' \<in> set (Auth cfg) \<Longrightarrow>
   GetAuthCredentials cfg =
     (takeWhile (\<lambda>c. c \<noteq> CHR '':'') (Auth cfg), tl (dropWhile (\<lambda>c. c \<noteq> CHR '':'') (Auth cfg)), True)"
  using take_Index_colon [of "Auth cfg"] drop_Index_colon [of "Auth cfg"]
  by (auto simp: GetAuthCredentials_def SplitN2_def Let_def Index_colon_found)

lemma sendProxyAuthRequired_response:
  "HeaderMap (sendProxyAuthRequired w) ''Proxy-Authenticate'' =
     Some [''Basic realm='' @ [CHR 0x22] @ ''Proxy'' @ [CHR 0x22]] \<and>
   wroteHeader (sendProxyAuthRequired w) \<and>
   Code (sendProxyAuthRequired w) = (if wroteHeader w then Code w else 407)"
  by (simp add: sendProxyAuthRequired_def http_Error_def Write_def WriteHeader_def Header_Set_def
      StatusProxyAuthRequired_def Let_def)

text \<open>
  C9. With credentials configured (\<open>Auth\<close> of the form \<open>user:pass\<close>, cut at its first
  colon), \<open>authenticate\<close> returns false, sends the 407 response with
  \<open>Proxy-Authenticate: Basic realm="Proxy"\<close> and counts an auth failure exactly when the
  \<open>Proxy-Authorization\<close> header is missing or empty, does not start with \<open>Basic \<close>, its
  payload does not decode, the decoded payload has no colon, or the parts before and
  after its first colon are not the configured user name and password. Otherwise it
  returns true and leaves the response and the counter alone. The status of the response
  is 407 when no status was written before. This holds for every decoder.
\<close>

theorem authenticate_rejects_iff:
  assumes "CHR '':'' \<in> set (Auth cfg)"
  shows
  "let username = takeWhile (\<lambda>c. c \<noteq> CHR '':'') (Auth cfg);
       password = tl (dropWhile (\<lambda>c. c \<noteq> CHR '':'') (Auth cfg));
       auth = Header_Get (Header r) ''Proxy-Authorization'';
       denied =
         (auth = [] \<or> \<not> HasPrefix auth ''Basic '' \<or>
          (case DecodeString (drop 6 auth) of
             None \<Rightarrow> True
           | Some decoded \<Rightarrow>
               CHR '':'' \<notin> set decoded \<or>
               takeWhile (\<lambda>c. c \<noteq> CHR '':'') decoded \<noteq> username \<or>
               tl (dropWhile (\<lambda>c. c \<noteq> CHR '':'') decoded) \<noteq> password))
   in GetAuthCredentials cfg = (username, password, True) \<and>
      authenticate DecodeString cfg r (w, n) =
        (if denied then (False, sendProxyAuthRequired w, n + 1) else (True, w, n)) \<and>
      HeaderMap (sendProxyAuthRequired w) ''Proxy-Authenticate'' =
        Some [''Basic realm='' @ [CHR 0x22] @ ''Proxy'' @ [CHR 0x22]] \<and>
      (\<not> wroteHeader w \<longrightarrow> Code (sendProxyAuthRequired w) = 407)"
proof -
  have ne: "Auth cfg \<noteq> []" using assms by auto
  have cred: "GetAuthCredentials cfg =
     (takeWhile (\<lambda>c. c \<noteq> CHR '':'') (Auth cfg), tl (dropWhile (\<lambda>c. c \<noteq> CHR '':'') (Auth cfg)), True)"
    by (rule GetAuthCredentials_split [OF assms])
  have d6: "drop (Suc (Suc (Suc (Suc (Suc (Suc 0)))))) = (drop 6 :: string \<Rightarrow> string)"
    by (simp add: eval_nat_numeral)
  show ?thesis
  proof (cases "DecodeString (drop 6 (Header_Get (Header r) ''Proxy-Authorization''))")
    case None
    then show ?thesis
      using ne cred sendProxyAuthRequired_response [of w]
      by (simp add: authenticate_def Let_def reject_def d6)
  next
    case (Some decoded)
    show ?thesis
    proof (cases "CHR '':'' \<in> set decoded")
      case True
      then show ?thesis
        using ne cred Some sendProxyAuthRequired_response [of w]
          take_Index_colon [OF True] drop_Index_colon [OF True]
        by (simp add: authenticate_def Let_def reject_def ConstantTimeCompare_def Index_colon_found d6)
    next
      case False
      then show ?thesis
        using ne cred Some sendProxyAuthRequired_response [of w]
        by (simp add: authenticate_def Let_def reject_def Index_colon_found d6)
    qed
  qed
qed


theorem authenticate_rejects_iff_witness:
  "CHR '':'' \<in> set (Auth \<lparr>Auth = ''user:pass''\<rparr>) \<and>
   authenticate StdEncoding_DecodeString \<lparr>Auth = ''user:pass''\<rparr>
     \<lparr>Header = [''Proxy-Authorization'' \<mapsto> [''Basic dXNlcjpwYXNz'']],
      RemoteAddr = ''192.168.1.100:12345''\<rparr>
     (\<lparr>HeaderMap = Map.empty, wroteHeader = False, Code = 0, Body = []\<rparr>, 0)
     = (True, \<lparr>HeaderMap = Map.empty, wroteHeader = False, Code = 0, Body = []\<rparr>, 0) \<and>
   fst (authenticate StdEncoding_DecodeString \<lparr>Auth = ''user:pass''\<rparr>
     \<lparr>Header = [''Proxy-Authorization'' \<mapsto> [''Basic dXNlcjp3cm9uZw=='']],
      RemoteAddr = ''192.168.1.100:12345''\<rparr>
     (\<lparr>HeaderMap = Map.empty, wroteHeader = False, Code = 0, Body = []\<rparr>, 0)) = False \<and>
   Code (fst (snd (authenticate StdEncoding_DecodeString \<lparr>Auth = ''user:pass''\<rparr>
     \<lparr>Header = [''Proxy-Authorization'' \<mapsto> [''Basic dXNlcjp3cm9uZw=='']],
      RemoteAddr = ''192.168.1.100:12345''\<rparr>
     (\<lparr>HeaderMap = Map.empty, wroteHeader = False, Code = 0, Body = []\<rparr>, 0)))) = 407 \<and>
   authenticate StdEncoding_DecodeString \<lparr>Auth = ''user:pa:ss''\<rparr>
     \<lparr>Header = [''Proxy-Authorization'' \<mapsto> [''Basic dXNlcjpwYTpzcw=='']],
      RemoteAddr = ''192.168.1.100:12345''\<rparr>
     (\<lparr>HeaderMap = Map.empty, wroteHeader = False, Code = 0, Body = []\<rparr>, 0)
     = (True, \<lparr>HeaderMap = Map.empty, wroteHeader = False, Code = 0, Body = []\<rparr>, 0)"
proof -
  have d1: "StdEncoding_DecodeString ''dXNlcjpwYXNz'' = Some ''user:pass''" by code_simp
  have d2: "StdEncoding_DecodeString ''dXNlcjp3cm9uZw=='' = Some ''user:wrong''" by code_simp
  have d3: "StdEncoding_DecodeString ''dXNlcjpwYTpzcw=='' = Some ''user:pa:ss''" by code_simp
  have c1: "CHR '':'' \<in> set (Auth \<lparr>Auth = ''user:pass''\<rparr>)" by simp
  have c2: "CHR '':'' \<in> set (Auth \<lparr>Auth = ''user:pa:ss''\<rparr>)" by simp
  show ?thesis
    using authenticate_rejects_iff [OF c1, where DecodeString = StdEncoding_DecodeString
            and r = "\<lparr>Header = [''Proxy-Authorization'' \<mapsto> [''Basic dXNlcjpwYXNz'']],
                     RemoteAddr = ''192.168.1.100:12345''\<rparr>"
            and w = "\<lparr>HeaderMap = Map.empty, wroteHeader = False, Code = 0, Body = []\<rparr>" and n = 0]
          authenticate_rejects_iff [OF c1, where DecodeString = StdEncoding_DecodeString
            and r = "\<lparr>Header = [''Proxy-Authorization'' \<mapsto> [''Basic dXNlcjp3cm9uZw=='']],
                     RemoteAddr = ''192.168.1.100:12345''\<rparr>"
            and w = "\<lparr>HeaderMap = Map.empty, wroteHeader = False, Code = 0, Body = []\<rparr>" and n = 0]
          authenticate_rejects_iff [OF c2, where DecodeString = StdEncoding_DecodeString
            and r = "\<lparr>Header = [''Proxy-Authorization'' \<mapsto> [''Basic dXNlcjpwYTpzcw=='']],
                     RemoteAddr = ''192.168.1.100:12345''\<rparr>"
            and w = "\<lparr>HeaderMap = Map.empty, wroteHeader = False, Code = 0, Body = []\<rparr>" and n = 0]
    by (simp add: Let_def Header_Get_def HasPrefix_def d1 d2 d3)
qed

end
